theory Spec2Isabelle
  imports Complex_Main
begin

section \<open>Data model\<close>

text \<open>
  The engine is the later of the two revisions of \<^verbatim>\<open>layoutEngine.ts\<close> found in the
  repository (\<^verbatim>\<open>src/unnamed/part_004\<close>: greedy left/right split, subtree-aware radial
  floor, tangential radial push, per-axis collision sweep). JavaScript numbers are modelled
  as \<^typ>\<open>real\<close>; the only infinite values the engine creates (the start values of the
  bounding box and of the best split difference) are modelled by \<open>None\<close>.

  Field names follow the source with a prefix, because a record field is a constant and
  \<open>x\<close>, \<open>y\<close>, \<open>id\<close> must stay usable as variables: \<open>nodeX\<close> is \<^verbatim>\<open>LayoutNode.x\<close>,
  \<open>srcId\<close> is \<^verbatim>\<open>MindMapNode.id\<close>, and so on. The \<^verbatim>\<open>parent\<close> back-reference of a
  layout node is written by the tree builder and never read, so it is left out.
\<close>

datatype MindMapNode =
  MindMapNode (srcId: string) (srcText: string) (srcIcon: "string option")
    (srcCollapsed: "bool option") (srcChildren: "MindMapNode list")

datatype LayoutType = Radial | HorizontalRight | HorizontalLeft | Vertical | Tree

datatype MarkerShape = NoMarker | Arrow | Triangle | Square | Diamond | Circle | Dot

record StyleConfig =
  rootFontSize :: real
  nodePaddingX :: real
  nodePaddingY :: real

record TypographyConfig =
  fontFamily :: string
  levelFontSizes :: "real list"
  fontWeight :: string

record StructureConfig =
  layout :: LayoutType
  horizontalSpacing :: real
  verticalSpacing :: real
  maxDepth :: real

record LinkConfig =
  markerStart :: MarkerShape
  markerEnd :: MarkerShape
  markerSize :: real

record ExportConfig =
  padding :: real

record MindMapConfig =
  styleCfg :: StyleConfig
  typographyCfg :: TypographyConfig
  structureCfg :: StructureConfig
  linkCfg :: LinkConfig
  exportCfg :: ExportConfig

record NodeData =
  nodeId :: string
  nodeSrc :: MindMapNode
  nodeX :: real
  nodeY :: real
  nodeWidth :: real
  nodeHeight :: real
  nodeDepth :: nat
  nodeAngle :: "real option"

datatype LayoutNode = LayoutNode (dataOf: NodeData) (children: "LayoutNode list")

record LayoutEdge =
  edgeId :: string
  source :: LayoutNode
  target :: LayoutNode
  edgeDepth :: nat

text \<open>
  The text-measurement oracle \<^verbatim>\<open>measureText(text, fontSize, fontFamily, fontWeight)\<close>
  is a parameter. Its font size is \<open>None\<close> when the source indexes an empty
  \<^verbatim>\<open>levelFontSizes\<close> array and gets \<^verbatim>\<open>undefined\<close>.
\<close>

type_synonym measureText = "string \<Rightarrow> real option \<Rightarrow> string \<Rightarrow> string \<Rightarrow> real \<times> real"

section \<open>Node size and tree construction\<close>

definition fontSizeFor :: "MindMapConfig \<Rightarrow> nat \<Rightarrow> real option" where
  "fontSizeFor config depth =
     (if depth = 0 then Some (rootFontSize (styleCfg config))
      else let sizes = levelFontSizes (typographyCfg config)
           in if sizes = [] then None
              else Some (sizes ! min depth (length sizes - 1)))"

definition calcNodeSize :: "measureText \<Rightarrow> MindMapNode \<Rightarrow> nat \<Rightarrow> MindMapConfig \<Rightarrow> real \<times> real" where
  "calcNodeSize textOracle node depth config =
     (let fontSize = fontSizeFor config depth;
          weight = (if depth = 0 then ''bold'' else fontWeight (typographyCfg config));
          measured = textOracle (srcText node) fontSize (fontFamily (typographyCfg config)) weight;
          paddingX = nodePaddingX (styleCfg config);
          paddingY = nodePaddingY (styleCfg config);
          iconSpace = (case srcIcon node of None \<Rightarrow> 0 | Some s \<Rightarrow> if s = [] then 0 else 24)
      in (fst measured + paddingX * 2 + iconSpace, snd measured + paddingY * 2))"

fun buildLayoutTree :: "measureText \<Rightarrow> MindMapConfig \<Rightarrow> MindMapNode \<Rightarrow> nat \<Rightarrow> LayoutNode" where
  "buildLayoutTree textOracle config (MindMapNode i t ic col cs) depth =
     LayoutNode
       \<lparr> nodeId = i, nodeSrc = MindMapNode i t ic col cs, nodeX = 0, nodeY = 0,
         nodeWidth = fst (calcNodeSize textOracle (MindMapNode i t ic col cs) depth config),
         nodeHeight = snd (calcNodeSize textOracle (MindMapNode i t ic col cs) depth config),
         nodeDepth = depth, nodeAngle = None \<rparr>
       (if col \<noteq> Some True \<and> real depth < maxDepth (structureCfg config)
        then map (\<lambda>child. buildLayoutTree textOracle config child (depth + 1)) cs
        else [])"

section \<open>Collecting nodes and edges\<close>

fun collectNodes :: "LayoutNode \<Rightarrow> LayoutNode list" where
  "collectNodes (LayoutNode d cs) = LayoutNode d cs # concat (map collectNodes cs)"

fun collectEdges :: "LayoutNode \<Rightarrow> LayoutEdge list" where
  "collectEdges (LayoutNode d cs) =
     concat (map (\<lambda>child.
        \<lparr> edgeId = nodeId d @ ''->'' @ nodeId (dataOf child),
          source = LayoutNode d cs, target = child,
          edgeDepth = nodeDepth (dataOf child) \<rparr> # collectEdges child) cs)"

section \<open>References into the layout tree\<close>

text \<open>
  The source keeps \<^verbatim>\<open>collectNodes(root)\<close> as an array of references and mutates the
  nodes through it. A reference is modelled by the path from the root (the child index
  at each level): \<open>collectPaths\<close> lists the references in the order of
  \<^verbatim>\<open>collectNodes\<close>, \<open>nodeAt\<close> dereferences, and \<open>updAt\<close> writes through a
  reference.
\<close>

type_synonym path = "nat list"

fun nodeAt :: "path \<Rightarrow> LayoutNode \<Rightarrow> LayoutNode" where
  "nodeAt [] n = n"
| "nodeAt (k # p) n = nodeAt p (children n ! k)"

fun updAt :: "path \<Rightarrow> (LayoutNode \<Rightarrow> LayoutNode) \<Rightarrow> LayoutNode \<Rightarrow> LayoutNode" where
  "updAt [] f n = f n"
| "updAt (k # p) f n = LayoutNode (dataOf n) ((children n)[k := updAt p f (children n ! k)])"

fun collectPaths :: "LayoutNode \<Rightarrow> path list"
  and collectPathsFrom :: "nat \<Rightarrow> LayoutNode list \<Rightarrow> path list" where
  "collectPaths (LayoutNode d cs) = [] # collectPathsFrom 0 cs"
| "collectPathsFrom k [] = []"
| "collectPathsFrom k (c # cs) = map ((#) k) (collectPaths c) @ collectPathsFrom (Suc k) cs"

section \<open>Horizontal tidy tree\<close>

fun subtreeHeight :: "real \<Rightarrow> LayoutNode \<Rightarrow> real" where
  "subtreeHeight vSpacing (LayoutNode d cs) =
     (if cs = [] then nodeHeight d + vSpacing
      else max (sum_list (map (subtreeHeight vSpacing) cs)) (nodeHeight d + vSpacing))"

fun assign :: "real \<Rightarrow> real \<Rightarrow> LayoutNode \<Rightarrow> real \<Rightarrow> real \<Rightarrow> LayoutNode"
  and assignChildren :: "real \<Rightarrow> real \<Rightarrow> LayoutNode list \<Rightarrow> real \<Rightarrow> real \<Rightarrow> LayoutNode list" where
  "assign hSpacing vSpacing (LayoutNode d cs) x yStart =
     LayoutNode
       (d\<lparr> nodeX := x,
            nodeY := yStart + subtreeHeight vSpacing (LayoutNode d cs) / 2 - nodeHeight d / 2 \<rparr>)
       (assignChildren hSpacing vSpacing cs (x + hSpacing) yStart)"
| "assignChildren hSpacing vSpacing [] x childY = []"
| "assignChildren hSpacing vSpacing (child # rest) x childY =
     assign hSpacing vSpacing child x childY
       # assignChildren hSpacing vSpacing rest x (childY + subtreeHeight vSpacing child)"

definition layoutHorizontalRight :: "LayoutNode \<Rightarrow> MindMapConfig \<Rightarrow> LayoutNode" where
  "layoutHorizontalRight rt config =
     (let hSpacing = horizontalSpacing (structureCfg config) + 80;
          vSpacing = verticalSpacing (structureCfg config) + 8;
          totalH = subtreeHeight vSpacing rt
      in assign hSpacing vSpacing rt 0 (- totalH / 2))"

definition mirrorX :: "LayoutNode \<Rightarrow> LayoutNode" where
  "mirrorX n = LayoutNode ((dataOf n)\<lparr> nodeX := - nodeX (dataOf n) - nodeWidth (dataOf n) \<rparr>) (children n)"

definition layoutHorizontalLeft :: "LayoutNode \<Rightarrow> MindMapConfig \<Rightarrow> LayoutNode" where
  "layoutHorizontalLeft rt config =
     (let laid = layoutHorizontalRight rt config
      in fold (\<lambda>p t. updAt p mirrorX t) (collectPaths laid) laid)"

section \<open>Vertical layout\<close>

fun subtreeWidth :: "real \<Rightarrow> LayoutNode \<Rightarrow> real" where
  "subtreeWidth hSpacing (LayoutNode d cs) =
     (if cs = [] then nodeWidth d + hSpacing
      else max (sum_list (map (subtreeWidth hSpacing) cs)) (nodeWidth d + hSpacing))"

fun assignVertical :: "real \<Rightarrow> real \<Rightarrow> LayoutNode \<Rightarrow> real \<Rightarrow> real \<Rightarrow> LayoutNode"
  and assignVerticalChildren :: "real \<Rightarrow> real \<Rightarrow> LayoutNode list \<Rightarrow> real \<Rightarrow> real \<Rightarrow> LayoutNode list" where
  "assignVertical hSpacing vSpacing (LayoutNode d cs) xStart y =
     LayoutNode
       (d\<lparr> nodeX := xStart + subtreeWidth hSpacing (LayoutNode d cs) / 2 - nodeWidth d / 2,
            nodeY := y \<rparr>)
       (assignVerticalChildren hSpacing vSpacing cs xStart (y + vSpacing))"
| "assignVerticalChildren hSpacing vSpacing [] childX y = []"
| "assignVerticalChildren hSpacing vSpacing (child # rest) childX y =
     assignVertical hSpacing vSpacing child childX y
       # assignVerticalChildren hSpacing vSpacing rest (childX + subtreeWidth hSpacing child) y"

definition layoutVertical :: "LayoutNode \<Rightarrow> MindMapConfig \<Rightarrow> LayoutNode" where
  "layoutVertical rt config =
     (let hSpacing = horizontalSpacing (structureCfg config) + 10;
          vSpacing = verticalSpacing (structureCfg config) + 40;
          totalW = subtreeWidth hSpacing rt
      in assignVertical hSpacing vSpacing rt (- totalW / 2) 0)"

section \<open>Balanced left/right tree\<close>

text \<open>
  The split loop of \<^verbatim>\<open>layoutTree\<close>. \<open>bestDiff\<close> starts at \<^verbatim>\<open>Infinity\<close>, modelled
  by \<open>None\<close>, below which every difference lies.
\<close>

fun bestSplitLoop :: "real list \<Rightarrow> real \<Rightarrow> nat \<Rightarrow> real \<Rightarrow> nat \<times> real option \<Rightarrow> nat \<times> real option" where
  "bestSplitLoop [] totalWeight i cumulative best = best"
| "bestSplitLoop (w # ws) totalWeight i cumulative (bestSplit, bestDiff) =
     (let cumulative' = cumulative + w;
          rightW = cumulative';
          leftW = totalWeight - cumulative';
          diff = \<bar>rightW - leftW\<bar>
      in if (case bestDiff of None \<Rightarrow> True | Some b \<Rightarrow> diff < b)
         then bestSplitLoop ws totalWeight (i + 1) cumulative' (i + 1, Some diff)
         else bestSplitLoop ws totalWeight (i + 1) cumulative' (bestSplit, bestDiff))"

definition bestSplitOf :: "real list \<Rightarrow> nat" where
  "bestSplitOf weights =
     fst (bestSplitLoop weights (sum_list weights) 0 0 ((length weights + 1) div 2, None))"

definition splitChildren :: "real \<Rightarrow> LayoutNode list \<Rightarrow> LayoutNode list \<times> LayoutNode list" where
  "splitChildren vSpacing cs =
     (let weights = map (subtreeHeight vSpacing) cs;
          bestSplit = bestSplitOf weights
      in (take bestSplit cs, drop bestSplit cs))"

fun assignRight :: "real \<Rightarrow> real \<Rightarrow> LayoutNode \<Rightarrow> real \<Rightarrow> real \<Rightarrow> LayoutNode"
  and assignRightChildren :: "real \<Rightarrow> real \<Rightarrow> LayoutNode list \<Rightarrow> real \<Rightarrow> real \<Rightarrow> LayoutNode list" where
  "assignRight hSpacing vSpacing (LayoutNode d cs) x yStart =
     LayoutNode
       (d\<lparr> nodeX := x,
            nodeY := yStart + subtreeHeight vSpacing (LayoutNode d cs) / 2 - nodeHeight d / 2 \<rparr>)
       (assignRightChildren hSpacing vSpacing cs (x + hSpacing) yStart)"
| "assignRightChildren hSpacing vSpacing [] x childY = []"
| "assignRightChildren hSpacing vSpacing (child # rest) x childY =
     assignRight hSpacing vSpacing child x childY
       # assignRightChildren hSpacing vSpacing rest x (childY + subtreeHeight vSpacing child)"

fun assignLeft :: "real \<Rightarrow> real \<Rightarrow> LayoutNode \<Rightarrow> real \<Rightarrow> real \<Rightarrow> LayoutNode"
  and assignLeftChildren :: "real \<Rightarrow> real \<Rightarrow> LayoutNode list \<Rightarrow> real \<Rightarrow> real \<Rightarrow> LayoutNode list" where
  "assignLeft hSpacing vSpacing (LayoutNode d cs) x yStart =
     LayoutNode
       (d\<lparr> nodeX := x - nodeWidth d,
            nodeY := yStart + subtreeHeight vSpacing (LayoutNode d cs) / 2 - nodeHeight d / 2 \<rparr>)
       (assignLeftChildren hSpacing vSpacing cs (x - hSpacing) yStart)"
| "assignLeftChildren hSpacing vSpacing [] x childY = []"
| "assignLeftChildren hSpacing vSpacing (child # rest) x childY =
     assignLeft hSpacing vSpacing child x childY
       # assignLeftChildren hSpacing vSpacing rest x (childY + subtreeHeight vSpacing child)"

definition layoutTree :: "LayoutNode \<Rightarrow> MindMapConfig \<Rightarrow> LayoutNode" where
  "layoutTree rt config =
     (let hSpacing = horizontalSpacing (structureCfg config) + 80;
          vSpacing = verticalSpacing (structureCfg config) + 12;
          d = (dataOf rt)\<lparr> nodeX := - nodeWidth (dataOf rt) / 2,
                               nodeY := - nodeHeight (dataOf rt) / 2 \<rparr>;
          rightChildren = fst (splitChildren vSpacing (children rt));
          leftChildren = snd (splitChildren vSpacing (children rt));
          rightTotalH = sum_list (map (subtreeHeight vSpacing) rightChildren);
          leftTotalH = sum_list (map (subtreeHeight vSpacing) leftChildren)
      in LayoutNode d
           (assignRightChildren hSpacing vSpacing rightChildren
              (nodeX d + nodeWidth d + hSpacing * 0.5) (- rightTotalH / 2)
            @ assignLeftChildren hSpacing vSpacing leftChildren
              (nodeX d - hSpacing * 0.5) (- leftTotalH / 2)))"

section \<open>Radial layout\<close>

fun computeSubtreeLeaves :: "LayoutNode \<Rightarrow> nat" where
  "computeSubtreeLeaves (LayoutNode d cs) =
     (if cs = [] then 1 else sum_list (map computeSubtreeLeaves cs))"

definition radiusForDepth :: "real \<Rightarrow> nat \<Rightarrow> real" where
  "radiusForDepth baseRing depth =
     real depth * baseRing + (if depth > 1 then (real depth - 1) * 40 else 0)"

definition nodeArc :: "real \<Rightarrow> NodeData \<Rightarrow> real" where
  "nodeArc baseRing d =
     (let r = radiusForDepth baseRing (nodeDepth d)
      in if r > 0 then (max (nodeWidth d) (nodeHeight d) + 20) / r else 0.3)"

fun minSubtreeAngle :: "real \<Rightarrow> LayoutNode \<Rightarrow> real" where
  "minSubtreeAngle baseRing (LayoutNode d cs) =
     (if cs = [] then nodeArc baseRing d
      else max (nodeArc baseRing d) (sum_list (map (minSubtreeAngle baseRing) cs)))"

text \<open>
  The angles \<^verbatim>\<open>positionChildren\<close> allocates to the children of one parent: the
  proportional share or the floor, whichever is larger, then scaled when the total
  exceeds the span.
\<close>

definition allocateAngles :: "real \<Rightarrow> LayoutNode list \<Rightarrow> real \<Rightarrow> real list" where
  "allocateAngles baseRing cs angleSpan =
     (let totalLeaves = sum_list (map computeSubtreeLeaves cs);
          allocated = map (\<lambda>child.
             max (real (computeSubtreeLeaves child) / real totalLeaves * angleSpan)
                 (minSubtreeAngle baseRing child)) cs;
          totalAllocated = sum_list allocated
      in if totalAllocated > angleSpan
         then map (\<lambda>a. a * (angleSpan / totalAllocated)) allocated
         else allocated)"

fun positionChildren :: "real \<Rightarrow> LayoutNode \<Rightarrow> real \<Rightarrow> real \<Rightarrow> LayoutNode"
  and placeSectors :: "real \<Rightarrow> LayoutNode list \<Rightarrow> real list \<Rightarrow> real \<Rightarrow> LayoutNode list" where
  "positionChildren baseRing (LayoutNode d cs) startAngle endAngle =
     LayoutNode d (placeSectors baseRing cs (allocateAngles baseRing cs (endAngle - startAngle)) startAngle)"
| "placeSectors baseRing (LayoutNode cd ccs # rest) (a # as) currentAngle =
     (let childStart = currentAngle;
          childEnd = currentAngle + a;
          midAngle = (childStart + childEnd) / 2;
          r = radiusForDepth baseRing (nodeDepth cd)
      in positionChildren baseRing
           (LayoutNode (cd\<lparr> nodeX := cos midAngle * r - nodeWidth cd / 2,
                               nodeY := sin midAngle * r - nodeHeight cd / 2,
                               nodeAngle := Some midAngle \<rparr>) ccs)
           childStart childEnd
         # placeSectors baseRing rest as childEnd)"
| "placeSectors baseRing [] as currentAngle = []"
| "placeSectors baseRing (c # rest) [] currentAngle = []"

definition layoutRadial :: "LayoutNode \<Rightarrow> MindMapConfig \<Rightarrow> LayoutNode" where
  "layoutRadial rt config =
     (let d = (dataOf rt)\<lparr> nodeX := - nodeWidth (dataOf rt) / 2,
                            nodeY := - nodeHeight (dataOf rt) / 2 \<rparr>;
          baseRing = horizontalSpacing (structureCfg config) + 120
      in positionChildren baseRing (LayoutNode d (children rt)) 0 (pi * 2))"

section \<open>Collision resolution\<close>

fun shiftSubtreeXY :: "real \<Rightarrow> real \<Rightarrow> LayoutNode \<Rightarrow> LayoutNode"
  and shiftChildrenXY :: "real \<Rightarrow> real \<Rightarrow> LayoutNode list \<Rightarrow> LayoutNode list" where
  "shiftSubtreeXY dx dy (LayoutNode d cs) = LayoutNode d (shiftChildrenXY dx dy cs)"
| "shiftChildrenXY dx dy [] = []"
| "shiftChildrenXY dx dy (LayoutNode cd ccs # rest) =
     shiftSubtreeXY dx dy (LayoutNode (cd\<lparr> nodeX := nodeX cd + dx, nodeY := nodeY cd + dy \<rparr>) ccs)
       # shiftChildrenXY dx dy rest"

text \<open>
  \<^verbatim>\<open>byDepth\<close> is a JavaScript \<^verbatim>\<open>Map\<close>: a key keeps the position of its first
  insertion and the levels are visited in that order.
\<close>

fun addToDepth :: "nat \<Rightarrow> path \<Rightarrow> (nat \<times> path list) list \<Rightarrow> (nat \<times> path list) list" where
  "addToDepth k p [] = [(k, [p])]"
| "addToDepth k p ((k', arr) # m) =
     (if k' = k then (k', arr @ [p]) # m else (k', arr) # addToDepth k p m)"

definition byDepth :: "LayoutNode \<Rightarrow> path list \<Rightarrow> (nat \<times> path list) list" where
  "byDepth rt nodes = fold (\<lambda>p m. addToDepth (nodeDepth (dataOf (nodeAt p rt))) p m) nodes []"

definition byDepthRadial :: "LayoutNode \<Rightarrow> path list \<Rightarrow> (nat \<times> path list) list" where
  "byDepthRadial rt nodes =
     fold (\<lambda>p m. if nodeDepth (dataOf (nodeAt p rt)) = 0 then m
                  else addToDepth (nodeDepth (dataOf (nodeAt p rt))) p m) nodes []"

definition pushX :: "real \<Rightarrow> LayoutNode \<Rightarrow> LayoutNode" where
  "pushX overlap cur =
     shiftSubtreeXY overlap 0
       (LayoutNode ((dataOf cur)\<lparr> nodeX := nodeX (dataOf cur) + overlap \<rparr>) (children cur))"

definition pushY :: "real \<Rightarrow> LayoutNode \<Rightarrow> LayoutNode" where
  "pushY overlap cur =
     shiftSubtreeXY 0 overlap
       (LayoutNode ((dataOf cur)\<lparr> nodeY := nodeY (dataOf cur) + overlap \<rparr>) (children cur))"

fun sweepX :: "path \<Rightarrow> path list \<Rightarrow> LayoutNode \<Rightarrow> LayoutNode" where
  "sweepX prev [] rt = rt"
| "sweepX prev (cur # rest) rt =
     (let overlap = nodeX (dataOf (nodeAt prev rt)) + nodeWidth (dataOf (nodeAt prev rt)) + 14
                      - nodeX (dataOf (nodeAt cur rt))
      in sweepX cur rest (if overlap > 0 then updAt cur (pushX overlap) rt else rt))"

fun sweepY :: "path \<Rightarrow> path list \<Rightarrow> LayoutNode \<Rightarrow> LayoutNode" where
  "sweepY prev [] rt = rt"
| "sweepY prev (cur # rest) rt =
     (let overlap = nodeY (dataOf (nodeAt prev rt)) + nodeHeight (dataOf (nodeAt prev rt)) + 14
                      - nodeY (dataOf (nodeAt cur rt))
      in sweepY cur rest (if overlap > 0 then updAt cur (pushY overlap) rt else rt))"

definition resolveLevelX :: "path list \<Rightarrow> LayoutNode \<Rightarrow> LayoutNode" where
  "resolveLevelX depthNodes rt =
     (case sort_key (\<lambda>p. nodeX (dataOf (nodeAt p rt))) depthNodes of
        [] \<Rightarrow> rt
      | first # rest \<Rightarrow> sweepX first rest rt)"

definition resolveLevelY :: "path list \<Rightarrow> LayoutNode \<Rightarrow> LayoutNode" where
  "resolveLevelY depthNodes rt =
     (case sort_key (\<lambda>p. nodeY (dataOf (nodeAt p rt))) depthNodes of
        [] \<Rightarrow> rt
      | first # rest \<Rightarrow> sweepY first rest rt)"

definition angleOr0 :: "LayoutNode \<Rightarrow> real" where
  "angleOr0 n = (case nodeAngle (dataOf n) of None \<Rightarrow> 0 | Some a \<Rightarrow> a)"

definition moveBy :: "real \<Rightarrow> real \<Rightarrow> LayoutNode \<Rightarrow> LayoutNode" where
  "moveBy dx dy n =
     shiftSubtreeXY dx dy
       (LayoutNode ((dataOf n)\<lparr> nodeX := nodeX (dataOf n) + dx, nodeY := nodeY (dataOf n) + dy \<rparr>)
          (children n))"

definition pushPair :: "path \<Rightarrow> path \<Rightarrow> LayoutNode \<Rightarrow> LayoutNode" where
  "pushPair pa pb rt =
     (let a = dataOf (nodeAt pa rt); b = dataOf (nodeAt pb rt);
          overlapX = min (nodeX a + nodeWidth a + 14) (nodeX b + nodeWidth b + 14)
                       - max (nodeX a) (nodeX b);
          overlapY = min (nodeY a + nodeHeight a + 14) (nodeY b + nodeHeight b + 14)
                       - max (nodeY a) (nodeY b)
      in if overlapX > 0 \<and> overlapY > 0
         then let midAngle = (angleOr0 (nodeAt pa rt) + angleOr0 (nodeAt pb rt)) / 2;
                  tangentX = - sin midAngle;
                  tangentY = cos midAngle;
                  push = min overlapX overlapY / 2 + 14 / 2
              in updAt pb (moveBy (tangentX * push) (tangentY * push))
                   (updAt pa (moveBy (- tangentX * push) (- tangentY * push)) rt)
         else rt)"

fun radialPass :: "path list \<Rightarrow> LayoutNode \<Rightarrow> LayoutNode" where
  "radialPass (a # b # rest) rt = radialPass (b # rest) (pushPair a b rt)"
| "radialPass [a] rt = rt"
| "radialPass [] rt = rt"

definition resolveLevelRadial :: "path list \<Rightarrow> LayoutNode \<Rightarrow> LayoutNode" where
  "resolveLevelRadial depthNodes rt =
     (let ordered = sort_key (\<lambda>p. angleOr0 (nodeAt p rt)) depthNodes
      in radialPass ordered (radialPass ordered (radialPass ordered rt)))"

definition resolveCollisions :: "path list \<Rightarrow> LayoutType \<Rightarrow> LayoutNode \<Rightarrow> LayoutNode" where
  "resolveCollisions nodes lay rt =
     (if lay = Radial
      then fold (\<lambda>(k, depthNodes) t. resolveLevelRadial depthNodes t) (byDepthRadial rt nodes) rt
      else if lay = Vertical
      then fold (\<lambda>(k, depthNodes) t. resolveLevelX depthNodes t) (byDepth rt nodes) rt
      else fold (\<lambda>(k, depthNodes) t. resolveLevelY depthNodes t) (byDepth rt nodes) rt)"

section \<open>Bounding box and the main function\<close>

text \<open>
  The four bounds start at \<^verbatim>\<open>Infinity\<close> and \<^verbatim>\<open>-Infinity\<close>, modelled by \<open>None\<close>;
  \<^verbatim>\<open>Math.min(Infinity, v)\<close> and \<^verbatim>\<open>Math.max(-Infinity, v)\<close> are \<open>v\<close>.
\<close>

definition minInf :: "real option \<Rightarrow> real \<Rightarrow> real option" where
  "minInf acc v = (case acc of None \<Rightarrow> Some v | Some m \<Rightarrow> Some (min m v))"

definition maxInf :: "real option \<Rightarrow> real \<Rightarrow> real option" where
  "maxInf acc v = (case acc of None \<Rightarrow> Some v | Some m \<Rightarrow> Some (max m v))"

record Bounds =
  minX :: "real option"
  minY :: "real option"
  maxX :: "real option"
  maxY :: "real option"

definition boundsStep :: "LayoutNode \<Rightarrow> Bounds \<Rightarrow> Bounds" where
  "boundsStep n b =
     \<lparr> minX = minInf (minX b) (nodeX (dataOf n)),
       minY = minInf (minY b) (nodeY (dataOf n)),
       maxX = maxInf (maxX b) (nodeX (dataOf n) + nodeWidth (dataOf n)),
       maxY = maxInf (maxY b) (nodeY (dataOf n) + nodeHeight (dataOf n)) \<rparr>"

definition computeBounds :: "LayoutNode list \<Rightarrow> Bounds" where
  "computeBounds nodes =
     fold boundsStep nodes \<lparr> minX = None, minY = None, maxX = None, maxY = None \<rparr>"

record LayoutResult =
  resNodes :: "LayoutNode list"
  resEdges :: "LayoutEdge list"
  resWidth :: real
  resHeight :: real
  resOffsetX :: real
  resOffsetY :: real

text \<open>
  The canvas size and offset of \<^verbatim>\<open>computeLayout\<close>, from the bounds and the export
  padding. The bounds of an empty node list are infinite and give \<open>None\<close>; the node list
  of a layout always holds the root.
\<close>

definition canvasOf :: "Bounds \<Rightarrow> real \<Rightarrow> (real \<times> real \<times> real \<times> real) option" where
  "canvasOf b pad =
     (case (minX b, minY b, maxX b, maxY b) of
        (Some x0, Some y0, Some x1, Some y1) \<Rightarrow>
          Some (x1 - x0 + pad * 2, y1 - y0 + pad * 2, - x0 + pad, - y0 + pad)
      | _ \<Rightarrow> None)"

definition applyLayout :: "LayoutNode \<Rightarrow> MindMapConfig \<Rightarrow> LayoutNode" where
  "applyLayout rt config =
     (case layout (structureCfg config) of
        Radial \<Rightarrow> layoutRadial rt config
      | HorizontalRight \<Rightarrow> layoutHorizontalRight rt config
      | HorizontalLeft \<Rightarrow> layoutHorizontalLeft rt config
      | Vertical \<Rightarrow> layoutVertical rt config
      | Tree \<Rightarrow> layoutTree rt config)"

definition layoutRoot :: "measureText \<Rightarrow> MindMapNode \<Rightarrow> MindMapConfig \<Rightarrow> LayoutNode" where
  "layoutRoot textOracle rootNode config =
     (let laid = applyLayout (buildLayoutTree textOracle config rootNode 0) config
      in resolveCollisions (collectPaths laid) (layout (structureCfg config)) laid)"

definition computeLayout :: "measureText \<Rightarrow> MindMapNode \<Rightarrow> MindMapConfig \<Rightarrow> LayoutResult option" where
  "computeLayout textOracle rootNode config =
     (let rt = layoutRoot textOracle rootNode config;
          nodes = collectNodes rt;
          edges = collectEdges rt
      in case canvasOf (computeBounds nodes) (padding (exportCfg config)) of
           None \<Rightarrow> None
         | Some (w, h, ox, oy) \<Rightarrow>
             Some \<lparr> resNodes = nodes, resEdges = edges, resWidth = w, resHeight = h,
                    resOffsetX = ox, resOffsetY = oy \<rparr>)"

section \<open>Sample inputs\<close>

text \<open>
  The default configuration of the application (its themes module), a measurement oracle
  that gives every label the same box, and small source trees used to run the engine.
\<close>

definition defaultConfig :: MindMapConfig where
  "defaultConfig =
     \<lparr> styleCfg = \<lparr> rootFontSize = 20, nodePaddingX = 20, nodePaddingY = 10 \<rparr>,
       typographyCfg = \<lparr> fontFamily = ''Inter'', levelFontSizes = [20, 15, 13, 12, 11, 10],
                         fontWeight = ''normal'' \<rparr>,
       structureCfg = \<lparr> layout = Radial, horizontalSpacing = 60, verticalSpacing = 30,
                        maxDepth = 8 \<rparr>,
       linkCfg = \<lparr> markerStart = NoMarker, markerEnd = Arrow, markerSize = 8 \<rparr>,
       exportCfg = \<lparr> padding = 40 \<rparr> \<rparr>"

definition fixedMeasure :: measureText where
  "fixedMeasure t fontSize family weight = (60, 20)"

definition leaf :: "string \<Rightarrow> MindMapNode" where
  "leaf i = MindMapNode i i None None []"

definition collapsedBranch :: MindMapNode where
  "collapsedBranch = MindMapNode ''a'' ''A'' None (Some True) [leaf ''b'', leaf ''c'']"

definition withLayout :: "LayoutType \<Rightarrow> MindMapConfig \<Rightarrow> MindMapConfig" where
  "withLayout lay config = config\<lparr> structureCfg := (structureCfg config)\<lparr> layout := lay \<rparr> \<rparr>"

definition collapsedSample :: MindMapNode where
  "collapsedSample = MindMapNode ''root'' ''Root'' None None [collapsedBranch, leaf ''d'']"

definition twoLevelSample :: MindMapNode where
  "twoLevelSample = MindMapNode ''root'' ''Root'' None None
      [MindMapNode ''a'' ''A'' None None [leaf ''b'', leaf ''c''], leaf ''d'']"

text \<open>
  The imbalance of a split of the weights at index \<open>k\<close>: the absolute difference between
  the total of the first \<open>k\<close> weights (the right side) and the total of the rest (the left
  side).
\<close>

definition imbalance :: "real list \<Rightarrow> nat \<Rightarrow> real" where
  "imbalance ws k = \<bar>sum_list (take k ws) - sum_list (drop k ws)\<bar>"

definition unbalancedSample :: MindMapNode where
  "unbalancedSample = MindMapNode ''root'' ''Root'' None None
      [MindMapNode ''a'' ''A'' None None [leaf ''a1'', leaf ''a2'', leaf ''a3''], leaf ''b'', leaf ''c'']"

definition unbalancedTree :: LayoutNode where
  "unbalancedTree = buildLayoutTree fixedMeasure (withLayout Tree defaultConfig) unbalancedSample 0"

section \<open>Relating two states of the layout tree\<close>

text \<open>
  \<open>relTree R a b\<close>: the trees \<open>a\<close> and \<open>b\<close> have the same shape and \<open>R\<close> relates the
  fields of every node of \<open>a\<close> to those of the node of \<open>b\<close> at the same place.
  \<open>pushedX\<close> and \<open>pushedY\<close> say that only one coordinate changed and did not decrease.
  \<open>translate\<close> moves a node and its whole subtree, the net effect of a push followed by
  \<^verbatim>\<open>shiftSubtreeXY\<close>.
\<close>

fun relTree :: "(NodeData \<Rightarrow> NodeData \<Rightarrow> bool) \<Rightarrow> LayoutNode \<Rightarrow> LayoutNode \<Rightarrow> bool" where
  "relTree R (LayoutNode d cs) (LayoutNode d' cs') = (R d d' \<and> list_all2 (relTree R) cs cs')"

definition pushedX :: "NodeData \<Rightarrow> NodeData \<Rightarrow> bool" where
  "pushedX d d' = (d' = d\<lparr> nodeX := nodeX d' \<rparr> \<and> nodeX d \<le> nodeX d')"

definition pushedY :: "NodeData \<Rightarrow> NodeData \<Rightarrow> bool" where
  "pushedY d d' = (d' = d\<lparr> nodeY := nodeY d' \<rparr> \<and> nodeY d \<le> nodeY d')"

fun translate :: "real \<Rightarrow> real \<Rightarrow> LayoutNode \<Rightarrow> LayoutNode" where
  "translate dx dy (LayoutNode d cs) =
     LayoutNode (d\<lparr> nodeX := nodeX d + dx, nodeY := nodeY d + dy \<rparr>) (map (translate dx dy) cs)"

definition crossSample :: MindMapNode where
  "crossSample = MindMapNode ''root'' ''Root'' None None
      [MindMapNode ''a'' ''A'' None None [leaf ''a1'', leaf ''a2''],
       MindMapNode ''b'' ''B'' None None [leaf ''b1'']]"

definition crossLaid :: LayoutNode where
  "crossLaid = applyLayout (buildLayoutTree fixedMeasure (withLayout Tree defaultConfig) crossSample 0)
                 (withLayout Tree defaultConfig)"

section \<open>Levels and their order\<close>

text \<open>
  \<open>validPath\<close>: the reference points into the tree. \<open>wfDepth\<close>: every child's depth is
  its parent's plus one, as the tree builder sets it. \<open>levelPaths t k\<close> are the nodes of
  depth \<open>k\<close> in the order of the node list, and \<open>levelOrder coord t k\<close> is that level
  sorted by the coordinate \<open>coord\<close> as \<^verbatim>\<open>Array.prototype.sort\<close> sorts it (stable).
  \<open>chainY\<close> and \<open>chainX\<close> say that each node of a list starts no earlier than its
  predecessor's end plus the padding of 14.
\<close>

fun validPath :: "path \<Rightarrow> LayoutNode \<Rightarrow> bool" where
  "validPath [] n = True"
| "validPath (k # p) n = (k < length (children n) \<and> validPath p (children n ! k))"

fun wfDepth :: "LayoutNode \<Rightarrow> bool" where
  "wfDepth (LayoutNode d cs) = (\<forall>c \<in> set cs. nodeDepth (dataOf c) = nodeDepth d + 1 \<and> wfDepth c)"

definition levelPaths :: "LayoutNode \<Rightarrow> nat \<Rightarrow> path list" where
  "levelPaths t k = filter (\<lambda>p. nodeDepth (dataOf (nodeAt p t)) = k) (collectPaths t)"

definition levelOrder :: "(NodeData \<Rightarrow> real) \<Rightarrow> LayoutNode \<Rightarrow> nat \<Rightarrow> path list" where
  "levelOrder coord t k = sort_key (\<lambda>p. coord (dataOf (nodeAt p t))) (levelPaths t k)"

fun chainY :: "LayoutNode \<Rightarrow> path list \<Rightarrow> bool" where
  "chainY t (p # q # ps) =
     (nodeY (dataOf (nodeAt p t)) + nodeHeight (dataOf (nodeAt p t)) + 14 \<le> nodeY (dataOf (nodeAt q t))
      \<and> chainY t (q # ps))"
| "chainY t [p] = True"
| "chainY t [] = True"

fun chainX :: "LayoutNode \<Rightarrow> path list \<Rightarrow> bool" where
  "chainX t (p # q # ps) =
     (nodeX (dataOf (nodeAt p t)) + nodeWidth (dataOf (nodeAt p t)) + 14 \<le> nodeX (dataOf (nodeAt q t))
      \<and> chainX t (q # ps))"
| "chainX t [p] = True"
| "chainX t [] = True"

text \<open>
  The left variant as the specification describes it: the tree in which every node's
  \<open>x\<close> is replaced by \<open>-x - width\<close> and nothing else changes. The source reaches it by
  a loop over the node list (\<open>layoutHorizontalLeft\<close> above); the two are compared below.
\<close>

fun mirrorTree :: "LayoutNode \<Rightarrow> LayoutNode" where
  "mirrorTree (LayoutNode d cs) =
     LayoutNode (d\<lparr> nodeX := - nodeX d - nodeWidth d \<rparr>) (map mirrorTree cs)"

text \<open>
  The floor as the specification states it: the larger of the node's dimension plus a
  margin and 0.3, divided by the radius. The dimension is the larger side of the node and
  the margin of the source is 20.
\<close>

definition claimedFloor :: "real \<Rightarrow> NodeData \<Rightarrow> real \<Rightarrow> real" where
  "claimedFloor margin d r = max (max (nodeWidth d) (nodeHeight d) + margin) 0.3 / r"

definition radialTree :: LayoutNode where
  "radialTree = buildLayoutTree fixedMeasure defaultConfig unbalancedSample 0"

section \<open>Radial layout: the sectors of the children\<close>






section \<open>Edge routing: anchors and gaps\<close>

text \<open>
  The later of the two \<^verbatim>\<open>Edge\<close> components (the one with the boundary intersection for
  the radial layout). \<open>hitStep\<close> is one of the four tests of \<^verbatim>\<open>rectBoundaryPoint\<close>:
  \<^verbatim>\<open>t\<close> starts at \<^verbatim>\<open>Infinity\<close> (\<open>None\<close>) and \<^verbatim>\<open>hitEdge\<close> at the right side. A result
  \<open>None\<close> would mean that \<^verbatim>\<open>t\<close> stayed infinite. \<open>edgeAnchors\<close> are the two anchor
  points with their direction vectors, \<open>edgeEndpoints\<close> the ends of the path after the
  gaps are applied; \<open>unitAxis\<close> names the four axis directions.
\<close>

datatype Anchor = AnchorTop | AnchorBottom | AnchorLeft | AnchorRight

definition getFixedAnchorPoint :: "NodeData \<Rightarrow> Anchor \<Rightarrow> real \<Rightarrow> real \<Rightarrow> real \<times> real" where
  "getFixedAnchorPoint node anchor offsetX offsetY =
     (let nx = nodeX node + offsetX;
          ny = nodeY node + offsetY;
          cx = nx + nodeWidth node / 2;
          cy = ny + nodeHeight node / 2
      in case anchor of
           AnchorTop \<Rightarrow> (cx, ny)
         | AnchorBottom \<Rightarrow> (cx, ny + nodeHeight node)
         | AnchorLeft \<Rightarrow> (nx, cy)
         | AnchorRight \<Rightarrow> (nx + nodeWidth node, cy))"

definition anchorDirection :: "Anchor \<Rightarrow> real \<times> real" where
  "anchorDirection anchor =
     (case anchor of
        AnchorTop \<Rightarrow> (0, - 1)
      | AnchorBottom \<Rightarrow> (0, 1)
      | AnchorLeft \<Rightarrow> (- 1, 0)
      | AnchorRight \<Rightarrow> (1, 0))"

definition hitStep :: "bool \<Rightarrow> real \<Rightarrow> Anchor \<Rightarrow> real option \<times> Anchor \<Rightarrow> real option \<times> Anchor" where
  "hitStep cond tt edge st =
     (if cond \<and> (case fst st of None \<Rightarrow> True | Some t \<Rightarrow> tt < t) then (Some tt, edge) else st)"

definition rectBoundaryPoint ::
  "NodeData \<Rightarrow> real \<Rightarrow> real \<Rightarrow> real \<Rightarrow> real \<Rightarrow> ((real \<times> real) \<times> (real \<times> real)) option" where
  "rectBoundaryPoint node targetX targetY offsetX offsetY =
     (let nx = nodeX node + offsetX;
          ny = nodeY node + offsetY;
          cx = nx + nodeWidth node / 2;
          cy = ny + nodeHeight node / 2;
          dirX = targetX - cx;
          dirY = targetY - cy
      in if \<bar>dirX\<bar> < 0.01 \<and> \<bar>dirY\<bar> < 0.01 then Some ((cx, ny), (0, - 1))
         else let halfW = nodeWidth node / 2;
                  halfH = nodeHeight node / 2;
                  st0 = (None, AnchorRight);
                  st1 = hitStep (dirX > 0) (halfW / dirX) AnchorRight st0;
                  st2 = hitStep (dirX < 0) (- halfW / dirX) AnchorLeft st1;
                  st3 = hitStep (dirY > 0) (halfH / dirY) AnchorBottom st2;
                  st4 = hitStep (dirY < 0) (- halfH / dirY) AnchorTop st3
              in case fst st4 of
                   None \<Rightarrow> None
                 | Some t \<Rightarrow> Some ((cx + dirX * t, cy + dirY * t), anchorDirection (snd st4)))"

definition chooseFixedAnchors ::
  "NodeData \<Rightarrow> NodeData \<Rightarrow> LayoutType \<Rightarrow> real \<Rightarrow> real \<Rightarrow> Anchor \<times> Anchor" where
  "chooseFixedAnchors src tgt lay offsetX offsetY =
     (if lay = Vertical then (AnchorBottom, AnchorTop)
      else let sx = nodeX src + offsetX + nodeWidth src / 2;
               tx = nodeX tgt + offsetX + nodeWidth tgt / 2
           in if tx > sx then (AnchorRight, AnchorLeft) else (AnchorLeft, AnchorRight))"

definition edgeAnchors ::
  "LayoutEdge \<Rightarrow> MindMapConfig \<Rightarrow> real \<Rightarrow> real
     \<Rightarrow> (((real \<times> real) \<times> (real \<times> real)) \<times> ((real \<times> real) \<times> (real \<times> real))) option" where
  "edgeAnchors edge config offsetX offsetY =
     (let src = dataOf (source edge); tgt = dataOf (target edge)
      in if layout (structureCfg config) = Radial
         then let srcCenter = (nodeX src + offsetX + nodeWidth src / 2, nodeY src + offsetY + nodeHeight src / 2);
                  tgtCenter = (nodeX tgt + offsetX + nodeWidth tgt / 2, nodeY tgt + offsetY + nodeHeight tgt / 2)
              in case (rectBoundaryPoint src (fst tgtCenter) (snd tgtCenter) offsetX offsetY,
                       rectBoundaryPoint tgt (fst srcCenter) (snd srcCenter) offsetX offsetY) of
                   (Some srcBP, Some tgtBP) \<Rightarrow> Some (srcBP, tgtBP)
                 | _ \<Rightarrow> None
         else let anchors = chooseFixedAnchors src tgt (layout (structureCfg config)) offsetX offsetY
              in Some ((getFixedAnchorPoint src (fst anchors) offsetX offsetY, anchorDirection (fst anchors)),
                       (getFixedAnchorPoint tgt (snd anchors) offsetX offsetY, anchorDirection (snd anchors))))"

definition startGap :: "LinkConfig \<Rightarrow> real" where
  "startGap link = (if markerStart link \<noteq> NoMarker then markerSize link + 3 else 4)"

definition endGap :: "LinkConfig \<Rightarrow> real" where
  "endGap link = (if markerEnd link \<noteq> NoMarker then markerSize link + 3 else 4)"

definition edgeEndpoints ::
  "LayoutEdge \<Rightarrow> MindMapConfig \<Rightarrow> real \<Rightarrow> real \<Rightarrow> ((real \<times> real) \<times> (real \<times> real)) option" where
  "edgeEndpoints edge config offsetX offsetY =
     (case edgeAnchors edge config offsetX offsetY of
        None \<Rightarrow> None
      | Some ((p1, startDir), (p2, endDir)) \<Rightarrow>
          Some ((fst p1 + fst startDir * startGap (linkCfg config),
                 snd p1 + snd startDir * startGap (linkCfg config)),
                (fst p2 + fst endDir * endGap (linkCfg config),
                 snd p2 + snd endDir * endGap (linkCfg config))))"

definition unitAxis :: "real \<times> real \<Rightarrow> bool" where
  "unitAxis v = (v = (1, 0) \<or> v = (- 1, 0) \<or> v = (0, 1) \<or> v = (0, - 1))"

definition sampleEdge :: LayoutEdge where
  "sampleEdge = hd (collectEdges (layoutRoot fixedMeasure twoLevelSample (withLayout HorizontalRight defaultConfig)))"

section \<open>Places in the source tree\<close>

text \<open>
  A place in the source tree is the list of child indices from the root, as for the layout
  tree: \<open>validSrc p src\<close> says that the place exists and \<open>srcAt p src\<close> is the source
  node there. \<open>edgeInto t r\<close> is the edge that \<^verbatim>\<open>collectEdges\<close> makes from the parent
  of the layout node at \<open>r\<close> to that node.
\<close>

fun srcAt :: "path \<Rightarrow> MindMapNode \<Rightarrow> MindMapNode" where
  "srcAt [] n = n"
| "srcAt (k # p) n = srcAt p (srcChildren n ! k)"

fun validSrc :: "path \<Rightarrow> MindMapNode \<Rightarrow> bool" where
  "validSrc [] n = True"
| "validSrc (k # p) n = (k < length (srcChildren n) \<and> validSrc p (srcChildren n ! k))"

definition edgeInto :: "LayoutNode \<Rightarrow> path \<Rightarrow> LayoutEdge" where
  "edgeInto t r =
     \<lparr> edgeId = nodeId (dataOf (nodeAt (butlast r) t)) @ ''->'' @ nodeId (dataOf (nodeAt r t)),
       source = nodeAt (butlast r) t, target = nodeAt r t,
       edgeDepth = nodeDepth (dataOf (nodeAt r t)) \<rparr>"

text \<open>
  A root with three leaves in the tree layout of the default configuration: \<open>a\<close> goes to
  the right side, \<open>b\<close> and \<open>c\<close> to the left side.
\<close>

definition siblingSample :: MindMapNode where
  "siblingSample = MindMapNode ''root'' ''Root'' None None [leaf ''a'', leaf ''b'', leaf ''c'']"

definition siblingLaid :: LayoutNode where
  "siblingLaid = applyLayout (buildLayoutTree fixedMeasure (withLayout Tree defaultConfig) siblingSample 0)
                   (withLayout Tree defaultConfig)"

section \<open>Tree construction: collapsed and depth-capped nodes\<close>

lemma collectEdges_source_has_children:
  "e \<in> set (collectEdges n) \<Longrightarrow> children (source e) \<noteq> []"
proof (induction n arbitrary: e)
  case (LayoutNode d cs)
  from LayoutNode.prems obtain c where c: "c \<in> set cs"
    and e: "e = \<lparr> edgeId = nodeId d @ ''->'' @ nodeId (dataOf c), source = LayoutNode d cs,
                   target = c, edgeDepth = nodeDepth (dataOf c) \<rparr> \<or> e \<in> set (collectEdges c)"
    by auto
  from e show ?case
  proof
    assume "e = \<lparr> edgeId = nodeId d @ ''->'' @ nodeId (dataOf c), source = LayoutNode d cs,
                   target = c, edgeDepth = nodeDepth (dataOf c) \<rparr>"
    with c show ?thesis by auto
  next
    assume "e \<in> set (collectEdges c)"
    with LayoutNode.IH c show ?thesis by blast
  qed
qed

lemma buildLayoutTree_nodes:
  "nd \<in> set (collectNodes (buildLayoutTree textOracle config src depth)) \<Longrightarrow>
   (srcCollapsed (nodeSrc (dataOf nd)) = Some True
      \<or> maxDepth (structureCfg config) \<le> real (nodeDepth (dataOf nd)))
   \<Longrightarrow> children nd = []"
proof (induction src arbitrary: depth nd)
  case (MindMapNode i t ic col cs)
  show ?case
  proof (cases "nd = buildLayoutTree textOracle config (MindMapNode i t ic col cs) depth")
    case True
    with MindMapNode.prems(2) show ?thesis by (auto simp: not_less)
  next
    case False
    with MindMapNode.prems(1) obtain c where c: "c \<in> set cs"
      and nd: "nd \<in> set (collectNodes (buildLayoutTree textOracle config c (depth + 1)))"
      by (auto split: if_splits)
    from MindMapNode.IH [OF c nd MindMapNode.prems(2)] show ?thesis .
  qed
qed

section \<open>Bounds containment\<close>

lemma fold_minInf_Some:
  "fold (\<lambda>n a. minInf a (g n)) ns (Some v) = Some (Min (insert v (g ` set ns)))"
proof (induction ns arbitrary: v)
  case Nil
  show ?case by simp
next
  case (Cons n ns)
  have "Min (insert (min v (g n)) (g ` set ns)) = Min (insert v (insert (g n) (g ` set ns)))"
    by (cases "set ns = {}") (simp_all add: min.assoc)
  moreover have "minInf (Some v) (g n) = Some (min v (g n))"
    by (simp add: minInf_def)
  ultimately show ?case using Cons by simp
qed

lemma fold_maxInf_Some:
  "fold (\<lambda>n a. maxInf a (g n)) ns (Some v) = Some (Max (insert v (g ` set ns)))"
proof (induction ns arbitrary: v)
  case Nil
  show ?case by simp
next
  case (Cons n ns)
  have "Max (insert (max v (g n)) (g ` set ns)) = Max (insert v (insert (g n) (g ` set ns)))"
    by (cases "set ns = {}") (simp_all add: max.assoc)
  moreover have "maxInf (Some v) (g n) = Some (max v (g n))"
    by (simp add: maxInf_def)
  ultimately show ?case using Cons by simp
qed

lemma fold_minInf_None:
  assumes "ns \<noteq> []"
  shows "fold (\<lambda>n a. minInf a (g n)) ns None = Some (Min (g ` set ns))"
proof (cases ns)
  case Nil
  with assms show ?thesis by simp
next
  case (Cons n rest)
  have "minInf None (g n) = Some (g n)" by (simp add: minInf_def)
  with Cons show ?thesis by (simp add: fold_minInf_Some)
qed

lemma fold_maxInf_None:
  assumes "ns \<noteq> []"
  shows "fold (\<lambda>n a. maxInf a (g n)) ns None = Some (Max (g ` set ns))"
proof (cases ns)
  case Nil
  with assms show ?thesis by simp
next
  case (Cons n rest)
  have "maxInf None (g n) = Some (g n)" by (simp add: maxInf_def)
  with Cons show ?thesis by (simp add: fold_maxInf_Some)
qed

lemma fold_bounds_fields:
  "minX (fold boundsStep ns b) = fold (\<lambda>n a. minInf a (nodeX (dataOf n))) ns (minX b)"
  "minY (fold boundsStep ns b) = fold (\<lambda>n a. minInf a (nodeY (dataOf n))) ns (minY b)"
  "maxX (fold boundsStep ns b) = fold (\<lambda>n a. maxInf a (nodeX (dataOf n) + nodeWidth (dataOf n))) ns (maxX b)"
  "maxY (fold boundsStep ns b) = fold (\<lambda>n a. maxInf a (nodeY (dataOf n) + nodeHeight (dataOf n))) ns (maxY b)"
  by (induction ns arbitrary: b) (simp_all add: boundsStep_def)

lemma computeBounds_nonempty:
  assumes "nodes \<noteq> []"
  shows "minX (computeBounds nodes) = Some (Min ((\<lambda>n. nodeX (dataOf n)) ` set nodes))"
    and "minY (computeBounds nodes) = Some (Min ((\<lambda>n. nodeY (dataOf n)) ` set nodes))"
    and "maxX (computeBounds nodes) = Some (Max ((\<lambda>n. nodeX (dataOf n) + nodeWidth (dataOf n)) ` set nodes))"
    and "maxY (computeBounds nodes) = Some (Max ((\<lambda>n. nodeY (dataOf n) + nodeHeight (dataOf n)) ` set nodes))"
proof -
  note eq = computeBounds_def
  show "minX (computeBounds nodes) = Some (Min ((\<lambda>n. nodeX (dataOf n)) ` set nodes))"
    using assms by (simp add: eq fold_bounds_fields fold_minInf_None)
  show "minY (computeBounds nodes) = Some (Min ((\<lambda>n. nodeY (dataOf n)) ` set nodes))"
    using assms by (simp add: eq fold_bounds_fields fold_minInf_None)
  show "maxX (computeBounds nodes) = Some (Max ((\<lambda>n. nodeX (dataOf n) + nodeWidth (dataOf n)) ` set nodes))"
    using assms by (simp add: eq fold_bounds_fields fold_maxInf_None)
  show "maxY (computeBounds nodes) = Some (Max ((\<lambda>n. nodeY (dataOf n) + nodeHeight (dataOf n)) ` set nodes))"
    using assms by (simp add: eq fold_bounds_fields fold_maxInf_None)
qed

lemma canvas_contains:
  assumes n: "n \<in> set nodes" and pad: "0 \<le> pad"
  shows "\<exists>w h ox oy. canvasOf (computeBounds nodes) pad = Some (w, h, ox, oy)
           \<and> ox = - Min ((\<lambda>n. nodeX (dataOf n)) ` set nodes) + pad
           \<and> oy = - Min ((\<lambda>n. nodeY (dataOf n)) ` set nodes) + pad
           \<and> 0 \<le> nodeX (dataOf n) + ox
           \<and> nodeX (dataOf n) + nodeWidth (dataOf n) + ox \<le> w
           \<and> 0 \<le> nodeY (dataOf n) + oy
           \<and> nodeY (dataOf n) + nodeHeight (dataOf n) + oy \<le> h"
proof -
  from n have ne: "nodes \<noteq> []" by auto
  have x0: "Min ((\<lambda>n. nodeX (dataOf n)) ` set nodes) \<le> nodeX (dataOf n)"
    using n by (intro Min_le) auto
  have y0: "Min ((\<lambda>n. nodeY (dataOf n)) ` set nodes) \<le> nodeY (dataOf n)"
    using n by (intro Min_le) auto
  have x1: "nodeX (dataOf n) + nodeWidth (dataOf n)
              \<le> Max ((\<lambda>n. nodeX (dataOf n) + nodeWidth (dataOf n)) ` set nodes)"
    using n by (intro Max_ge) auto
  have y1: "nodeY (dataOf n) + nodeHeight (dataOf n)
              \<le> Max ((\<lambda>n. nodeY (dataOf n) + nodeHeight (dataOf n)) ` set nodes)"
    using n by (intro Max_ge) auto
  show ?thesis
    using x0 y0 x1 y1 pad
    by (simp add: canvasOf_def computeBounds_nonempty [OF ne])
qed


lemma collectNodes_nonempty: "collectNodes n \<noteq> []"
  by (cases n) simp

text \<open>
  C4. Every layout computation returns a result (its node list holds the root, so the
  bounds are finite), with \<^verbatim>\<open>offsetX = -minX + padding\<close>,
  \<^verbatim>\<open>offsetY = -minY + padding\<close>, and when the padding is not negative every node's
  rectangle, moved by the offset, lies in \<open>[0, width] \<times> [0, height]\<close>.
\<close>

theorem bounds_containment:
  assumes pad: "0 \<le> padding (exportCfg config)"
  shows "\<exists>r. computeLayout textOracle src config = Some r
           \<and> resOffsetX r = - Min ((\<lambda>n. nodeX (dataOf n)) ` set (resNodes r)) + padding (exportCfg config)
           \<and> resOffsetY r = - Min ((\<lambda>n. nodeY (dataOf n)) ` set (resNodes r)) + padding (exportCfg config)
           \<and> (\<forall>n \<in> set (resNodes r).
                  0 \<le> nodeX (dataOf n) + resOffsetX r
                \<and> nodeX (dataOf n) + nodeWidth (dataOf n) + resOffsetX r \<le> resWidth r
                \<and> 0 \<le> nodeY (dataOf n) + resOffsetY r
                \<and> nodeY (dataOf n) + nodeHeight (dataOf n) + resOffsetY r \<le> resHeight r)"
proof -
  define nodes where "nodes = collectNodes (layoutRoot textOracle src config)"
  have ne: "nodes \<noteq> []" by (simp add: nodes_def collectNodes_nonempty)
  then obtain n0 where n0: "n0 \<in> set nodes" by (cases nodes) auto
  from canvas_contains [OF n0 pad] obtain w h ox oy
    where c: "canvasOf (computeBounds nodes) (padding (exportCfg config)) = Some (w, h, ox, oy)"
      and ox: "ox = - Min ((\<lambda>n. nodeX (dataOf n)) ` set nodes) + padding (exportCfg config)"
      and oy: "oy = - Min ((\<lambda>n. nodeY (dataOf n)) ` set nodes) + padding (exportCfg config)"
    by blast
  have all: "\<forall>n \<in> set nodes.
                  0 \<le> nodeX (dataOf n) + ox
                \<and> nodeX (dataOf n) + nodeWidth (dataOf n) + ox \<le> w
                \<and> 0 \<le> nodeY (dataOf n) + oy
                \<and> nodeY (dataOf n) + nodeHeight (dataOf n) + oy \<le> h"
  proof
    fix n assume "n \<in> set nodes"
    from canvas_contains [OF this pad] c
    show "0 \<le> nodeX (dataOf n) + ox
                \<and> nodeX (dataOf n) + nodeWidth (dataOf n) + ox \<le> w
                \<and> 0 \<le> nodeY (dataOf n) + oy
                \<and> nodeY (dataOf n) + nodeHeight (dataOf n) + oy \<le> h"
      by auto
  qed
  have "computeLayout textOracle src config =
          Some \<lparr> resNodes = nodes, resEdges = collectEdges (layoutRoot textOracle src config),
                 resWidth = w, resHeight = h, resOffsetX = ox, resOffsetY = oy \<rparr>"
    using c by (simp add: computeLayout_def Let_def nodes_def)
  with all ox oy show ?thesis by simp
qed

lemma canvas_eval:
  "canvasOf (computeBounds (collectNodes (layoutRoot fixedMeasure twoLevelSample (withLayout HorizontalRight defaultConfig)))) 40
     = Some (460, 276, 40, 138)"
  by (simp add: layoutRoot_def twoLevelSample_def leaf_def withLayout_def defaultConfig_def fixedMeasure_def
    applyLayout_def layoutHorizontalRight_def calcNodeSize_def fontSizeFor_def Let_def
    resolveCollisions_def byDepth_def resolveLevelY_def
    computeBounds_def boundsStep_def minInf_def maxInf_def canvasOf_def)

theorem bounds_containment_witness:
  "0 \<le> padding (exportCfg (withLayout HorizontalRight defaultConfig))
   \<and> (\<exists>r. computeLayout fixedMeasure twoLevelSample (withLayout HorizontalRight defaultConfig) = Some r
          \<and> resWidth r = 460 \<and> resHeight r = 276 \<and> resOffsetX r = 40 \<and> resOffsetY r = 138
          \<and> (\<forall>n \<in> set (resNodes r).
                  0 \<le> nodeX (dataOf n) + resOffsetX r
                \<and> nodeX (dataOf n) + nodeWidth (dataOf n) + resOffsetX r \<le> resWidth r
                \<and> 0 \<le> nodeY (dataOf n) + resOffsetY r
                \<and> nodeY (dataOf n) + nodeHeight (dataOf n) + resOffsetY r \<le> resHeight r))"
proof -
  have pad: "0 \<le> padding (exportCfg (withLayout HorizontalRight defaultConfig))"
    and pad40: "padding (exportCfg (withLayout HorizontalRight defaultConfig)) = 40"
    by (simp_all add: withLayout_def defaultConfig_def)
  from bounds_containment [OF pad, of fixedMeasure twoLevelSample] obtain r
    where r: "computeLayout fixedMeasure twoLevelSample (withLayout HorizontalRight defaultConfig) = Some r"
      and inside: "\<forall>n \<in> set (resNodes r).
                  0 \<le> nodeX (dataOf n) + resOffsetX r
                \<and> nodeX (dataOf n) + nodeWidth (dataOf n) + resOffsetX r \<le> resWidth r
                \<and> 0 \<le> nodeY (dataOf n) + resOffsetY r
                \<and> nodeY (dataOf n) + nodeHeight (dataOf n) + resOffsetY r \<le> resHeight r"
    by blast
  from r have "resWidth r = 460 \<and> resHeight r = 276 \<and> resOffsetX r = 40 \<and> resOffsetY r = 138"
    by (auto simp: computeLayout_def Let_def pad40 canvas_eval)
  with pad r inside show ?thesis by blast
qed

section \<open>Balanced tree: the split of the root's children\<close>

lemma bestSplitLoop_spec:
  assumes "bestSplitLoop ws tot i cum (bs, bd) = (r, rd)"
  shows "(case rd of
            None \<Rightarrow> bd = None \<and> ws = [] \<and> r = bs
          | Some v \<Rightarrow>
              ((r = bs \<and> bd = Some v)
                 \<or> (i < r \<and> r \<le> i + length ws
                      \<and> v = \<bar>(cum + sum_list (take (r - i) ws)) - (tot - (cum + sum_list (take (r - i) ws)))\<bar>
                      \<and> (\<forall>j. 1 \<le> j \<and> j < r - i \<longrightarrow>
                            v < \<bar>(cum + sum_list (take j ws)) - (tot - (cum + sum_list (take j ws)))\<bar>)
                      \<and> (\<forall>b. bd = Some b \<longrightarrow> v < b)))
              \<and> (\<forall>j. 1 \<le> j \<and> j \<le> length ws \<longrightarrow>
                     v \<le> \<bar>(cum + sum_list (take j ws)) - (tot - (cum + sum_list (take j ws)))\<bar>)
              \<and> (\<forall>b. bd = Some b \<longrightarrow> v \<le> b))"
  using assms
proof (induction ws arbitrary: i cum bs bd)
  case Nil
  then show ?case by (auto split: option.splits)
next
  case (Cons w ws)
  define diff where "diff = \<bar>(cum + w) - (tot - (cum + w))\<bar>"
  have shift: "\<And>j. j \<ge> 1 \<Longrightarrow> cum + sum_list (take j (w # ws)) = (cum + w) + sum_list (take (j - 1) ws)"
    by (case_tac j) simp_all
  have step: "bestSplitLoop (w # ws) tot i cum (bs, bd) =
      (if (case bd of None \<Rightarrow> True | Some b \<Rightarrow> diff < b)
       then bestSplitLoop ws tot (i + 1) (cum + w) (i + 1, Some diff)
       else bestSplitLoop ws tot (i + 1) (cum + w) (bs, bd))"
    by (simp only: bestSplitLoop.simps Let_def diff_def)
  show ?case
  proof (cases "case bd of None \<Rightarrow> True | Some b \<Rightarrow> diff < b")
    case True
    have rec: "bestSplitLoop ws tot (i + 1) (cum + w) (i + 1, Some diff) = (r, rd)"
      using Cons.prems unfolding step by (simp only: True if_True)
    from Cons.IH [OF rec] obtain v where rd: "rd = Some v"
      and alt: "(r = i + 1 \<and> diff = v)
                 \<or> (i + 1 < r \<and> r \<le> i + 1 + length ws
                      \<and> v = \<bar>(cum + w + sum_list (take (r - (i + 1)) ws)) - (tot - (cum + w + sum_list (take (r - (i + 1)) ws)))\<bar>
                      \<and> (\<forall>j. 1 \<le> j \<and> j < r - (i + 1) \<longrightarrow>
                            v < \<bar>(cum + w + sum_list (take j ws)) - (tot - (cum + w + sum_list (take j ws)))\<bar>)
                      \<and> v < diff)"
      and least: "\<forall>j. 1 \<le> j \<and> j \<le> length ws \<longrightarrow>
                     v \<le> \<bar>(cum + w + sum_list (take j ws)) - (tot - (cum + w + sum_list (take j ws)))\<bar>"
      and le: "v \<le> diff"
      by (cases rd) auto
    have d1: "\<bar>(cum + sum_list (take 1 (w # ws))) - (tot - (cum + sum_list (take 1 (w # ws))))\<bar> = diff"
      by (simp add: diff_def)
    have bound: "\<forall>j. 1 \<le> j \<and> j \<le> length (w # ws) \<longrightarrow>
                     v \<le> \<bar>(cum + sum_list (take j (w # ws))) - (tot - (cum + sum_list (take j (w # ws))))\<bar>"
    proof (intro allI impI)
      fix j assume j: "1 \<le> j \<and> j \<le> length (w # ws)"
      show "v \<le> \<bar>(cum + sum_list (take j (w # ws))) - (tot - (cum + sum_list (take j (w # ws))))\<bar>"
      proof (cases "j = 1")
        case True
        with le d1 show ?thesis by simp
      next
        case False
        with j have "1 \<le> j - 1 \<and> j - 1 \<le> length ws" by auto
        with least have "v \<le> \<bar>(cum + w + sum_list (take (j - 1) ws)) - (tot - (cum + w + sum_list (take (j - 1) ws)))\<bar>"
          by blast
        with shift [of j] j show ?thesis by simp
      qed
    qed
    have bdle: "\<forall>b. bd = Some b \<longrightarrow> v < b"
      using True le by (auto split: option.splits)
    have new: "i < r \<and> r \<le> i + length (w # ws)
                \<and> v = \<bar>(cum + sum_list (take (r - i) (w # ws))) - (tot - (cum + sum_list (take (r - i) (w # ws))))\<bar>
                \<and> (\<forall>j. 1 \<le> j \<and> j < r - i \<longrightarrow>
                            v < \<bar>(cum + sum_list (take j (w # ws))) - (tot - (cum + sum_list (take j (w # ws))))\<bar>)"
      using alt
    proof
      assume a: "r = i + 1 \<and> diff = v"
      then show ?thesis using d1 by auto
    next
      assume a: "i + 1 < r \<and> r \<le> i + 1 + length ws
                      \<and> v = \<bar>(cum + w + sum_list (take (r - (i + 1)) ws)) - (tot - (cum + w + sum_list (take (r - (i + 1)) ws)))\<bar>
                      \<and> (\<forall>j. 1 \<le> j \<and> j < r - (i + 1) \<longrightarrow>
                            v < \<bar>(cum + w + sum_list (take j ws)) - (tot - (cum + w + sum_list (take j ws)))\<bar>)
                      \<and> v < diff"
      have ri: "r - i \<ge> 1" "r - i - 1 = r - (i + 1)" using a by auto
      have "\<forall>j. 1 \<le> j \<and> j < r - i \<longrightarrow>
                   v < \<bar>(cum + sum_list (take j (w # ws))) - (tot - (cum + sum_list (take j (w # ws))))\<bar>"
      proof (intro allI impI)
        fix j assume j: "1 \<le> j \<and> j < r - i"
        show "v < \<bar>(cum + sum_list (take j (w # ws))) - (tot - (cum + sum_list (take j (w # ws))))\<bar>"
        proof (cases "j = 1")
          case True
          with a d1 show ?thesis by simp
        next
          case False
          with j have "1 \<le> j - 1 \<and> j - 1 < r - (i + 1)" by auto
          with a have "v < \<bar>(cum + w + sum_list (take (j - 1) ws)) - (tot - (cum + w + sum_list (take (j - 1) ws)))\<bar>"
            by blast
          with shift [of j] j show ?thesis by simp
        qed
      qed
      moreover have "v = \<bar>(cum + sum_list (take (r - i) (w # ws))) - (tot - (cum + sum_list (take (r - i) (w # ws))))\<bar>"
        using a shift [of "r - i"] ri by simp
      ultimately show ?thesis using a by auto
    qed
    show ?thesis
      using rd new bound bdle by (auto simp: less_imp_le)
  next
    case False
    then obtain b where bd: "bd = Some b" and nb: "\<not> diff < b"
      by (auto split: option.splits)
    have "bestSplitLoop ws tot (i + 1) (cum + w) (bs, bd) = (r, rd)"
      using Cons.prems unfolding step by (simp only: False if_False)
    then have rec: "bestSplitLoop ws tot (i + 1) (cum + w) (bs, Some b) = (r, rd)"
      by (simp only: bd)
    from Cons.IH [OF rec] obtain v where rd: "rd = Some v"
      and alt: "(r = bs \<and> b = v)
                 \<or> (i + 1 < r \<and> r \<le> i + 1 + length ws
                      \<and> v = \<bar>(cum + w + sum_list (take (r - (i + 1)) ws)) - (tot - (cum + w + sum_list (take (r - (i + 1)) ws)))\<bar>
                      \<and> (\<forall>j. 1 \<le> j \<and> j < r - (i + 1) \<longrightarrow>
                            v < \<bar>(cum + w + sum_list (take j ws)) - (tot - (cum + w + sum_list (take j ws)))\<bar>)
                      \<and> v < b)"
      and least: "\<forall>j. 1 \<le> j \<and> j \<le> length ws \<longrightarrow>
                     v \<le> \<bar>(cum + w + sum_list (take j ws)) - (tot - (cum + w + sum_list (take j ws)))\<bar>"
      and le: "v \<le> b"
      by (cases rd) auto
    have d1: "\<bar>(cum + sum_list (take 1 (w # ws))) - (tot - (cum + sum_list (take 1 (w # ws))))\<bar> = diff"
      by (simp add: diff_def)
    have bound: "\<forall>j. 1 \<le> j \<and> j \<le> length (w # ws) \<longrightarrow>
                     v \<le> \<bar>(cum + sum_list (take j (w # ws))) - (tot - (cum + sum_list (take j (w # ws))))\<bar>"
    proof (intro allI impI)
      fix j assume j: "1 \<le> j \<and> j \<le> length (w # ws)"
      show "v \<le> \<bar>(cum + sum_list (take j (w # ws))) - (tot - (cum + sum_list (take j (w # ws))))\<bar>"
      proof (cases "j = 1")
        case True
        with le nb d1 show ?thesis by simp
      next
        case False
        with j have "1 \<le> j - 1 \<and> j - 1 \<le> length ws" by auto
        with least have "v \<le> \<bar>(cum + w + sum_list (take (j - 1) ws)) - (tot - (cum + w + sum_list (take (j - 1) ws)))\<bar>"
          by blast
        with shift [of j] j show ?thesis by simp
      qed
    qed
    have new: "(r = bs \<and> b = v) \<or> (i < r \<and> r \<le> i + length (w # ws)
                \<and> v = \<bar>(cum + sum_list (take (r - i) (w # ws))) - (tot - (cum + sum_list (take (r - i) (w # ws))))\<bar>
                \<and> (\<forall>j. 1 \<le> j \<and> j < r - i \<longrightarrow>
                            v < \<bar>(cum + sum_list (take j (w # ws))) - (tot - (cum + sum_list (take j (w # ws))))\<bar>)
                \<and> v < b)"
      using alt
    proof
      assume "r = bs \<and> b = v"
      then show ?thesis by simp
    next
      assume a: "i + 1 < r \<and> r \<le> i + 1 + length ws
                      \<and> v = \<bar>(cum + w + sum_list (take (r - (i + 1)) ws)) - (tot - (cum + w + sum_list (take (r - (i + 1)) ws)))\<bar>
                      \<and> (\<forall>j. 1 \<le> j \<and> j < r - (i + 1) \<longrightarrow>
                            v < \<bar>(cum + w + sum_list (take j ws)) - (tot - (cum + w + sum_list (take j ws)))\<bar>)
                      \<and> v < b"
      have ri: "r - i \<ge> 1" "r - i - 1 = r - (i + 1)" using a by auto
      have "\<forall>j. 1 \<le> j \<and> j < r - i \<longrightarrow>
                   v < \<bar>(cum + sum_list (take j (w # ws))) - (tot - (cum + sum_list (take j (w # ws))))\<bar>"
      proof (intro allI impI)
        fix j assume j: "1 \<le> j \<and> j < r - i"
        show "v < \<bar>(cum + sum_list (take j (w # ws))) - (tot - (cum + sum_list (take j (w # ws))))\<bar>"
        proof (cases "j = 1")
          case True
          with a nb d1 show ?thesis by simp
        next
          case False
          with j have "1 \<le> j - 1 \<and> j - 1 < r - (i + 1)" by auto
          with a have "v < \<bar>(cum + w + sum_list (take (j - 1) ws)) - (tot - (cum + w + sum_list (take (j - 1) ws)))\<bar>"
            by blast
          with shift [of j] j show ?thesis by simp
        qed
      qed
      moreover have "v = \<bar>(cum + sum_list (take (r - i) (w # ws))) - (tot - (cum + sum_list (take (r - i) (w # ws))))\<bar>"
        using a shift [of "r - i"] ri by simp
      ultimately show ?thesis using a by auto
    qed
    show ?thesis
      using rd new bound bd le by auto
  qed
qed

lemma imbalance_alt:
  "imbalance ws k = \<bar>(0 + sum_list (take k ws)) - (sum_list ws - (0 + sum_list (take k ws)))\<bar>"
proof -
  have "sum_list ws = sum_list (take k ws) + sum_list (drop k ws)"
    by (metis append_take_drop_id sum_list_append)
  then show ?thesis by (simp add: imbalance_def)
qed

lemma bestSplitOf_spec:
  assumes ne: "ws \<noteq> []"
  shows "1 \<le> bestSplitOf ws" and "bestSplitOf ws \<le> length ws"
    and "\<forall>j \<le> length ws. imbalance ws (bestSplitOf ws) \<le> imbalance ws j"
    and "\<forall>j. 1 \<le> j \<and> j < bestSplitOf ws \<longrightarrow> imbalance ws (bestSplitOf ws) < imbalance ws j"
proof -
  obtain r rd where res: "bestSplitLoop ws (sum_list ws) 0 0 ((length ws + 1) div 2, None) = (r, rd)"
    by (cases "bestSplitLoop ws (sum_list ws) 0 0 ((length ws + 1) div 2, None)") auto
  then have k: "bestSplitOf ws = r" by (simp add: bestSplitOf_def)
  from bestSplitLoop_spec [OF res] ne obtain v where
        r: "0 < r" "r \<le> length ws"
    and v: "v = imbalance ws r"
    and strict: "\<forall>j. 1 \<le> j \<and> j < r \<longrightarrow> v < imbalance ws j"
    and least: "\<forall>j. 1 \<le> j \<and> j \<le> length ws \<longrightarrow> v \<le> imbalance ws j"
    by (cases rd) (auto simp: imbalance_alt)
  show "1 \<le> bestSplitOf ws" "bestSplitOf ws \<le> length ws" using r k by auto
  show "\<forall>j. 1 \<le> j \<and> j < bestSplitOf ws \<longrightarrow> imbalance ws (bestSplitOf ws) < imbalance ws j"
    using strict v k by simp
  have zero: "imbalance ws 0 = imbalance ws (length ws)"
    by (simp add: imbalance_def)
  show "\<forall>j \<le> length ws. imbalance ws (bestSplitOf ws) \<le> imbalance ws j"
  proof (intro allI impI)
    fix j assume j: "j \<le> length ws"
    show "imbalance ws (bestSplitOf ws) \<le> imbalance ws j"
    proof (cases "j = 0")
      case True
      from ne have "1 \<le> length ws" by (cases ws) auto
      with least have "v \<le> imbalance ws (length ws)" by blast
      with True zero v k show ?thesis by simp
    next
      case False
      with j least have "v \<le> imbalance ws j" by auto
      with v k show ?thesis by simp
    qed
  qed
qed

lemma assignRightChildren_nth:
  "length (assignRightChildren hs vs cs x y) = length cs
   \<and> (\<forall>i < length cs.
         nodeX (dataOf (assignRightChildren hs vs cs x y ! i)) = x
       \<and> nodeId (dataOf (assignRightChildren hs vs cs x y ! i)) = nodeId (dataOf (cs ! i)))"
proof (induction cs arbitrary: y)
  case Nil
  show ?case by simp
next
  case (Cons c cs)
  obtain d ccs where c: "c = LayoutNode d ccs" by (cases c)
  show ?case
    using Cons.IH [of "y + subtreeHeight vs c"]
    by (auto simp: c nth_Cons split: nat.splits)
qed

lemma assignLeftChildren_nth:
  "length (assignLeftChildren hs vs cs x y) = length cs
   \<and> (\<forall>i < length cs.
         nodeX (dataOf (assignLeftChildren hs vs cs x y ! i)) = x - nodeWidth (dataOf (cs ! i))
       \<and> nodeId (dataOf (assignLeftChildren hs vs cs x y ! i)) = nodeId (dataOf (cs ! i)))"
proof (induction cs arbitrary: y)
  case Nil
  show ?case by simp
next
  case (Cons c cs)
  obtain d ccs where c: "c = LayoutNode d ccs" by (cases c)
  show ?case
    using Cons.IH [of "y + subtreeHeight vs c"]
    by (auto simp: c nth_Cons split: nat.splits)
qed

text \<open>
  C1. In the tree layout a root with children splits them at the index \<open>k\<close> computed by
  the loop: \<open>1 \<le> k \<le> n\<close>, the right group is the first \<open>k\<close> children and the left
  group the rest, both in their original order; \<open>k\<close> minimises the imbalance of the
  subtree heights over every split index \<open>0..n\<close> and is the first index from 1 that does;
  in the layout the children keep their order, the first \<open>k\<close> stand right of the root
  and the others left of it.
\<close>

theorem balanced_split:
  assumes ne: "children rt \<noteq> []"
  shows "(let vSpacing = verticalSpacing (structureCfg config) + 12;
              hSpacing = horizontalSpacing (structureCfg config) + 80;
              weights = map (subtreeHeight vSpacing) (children rt);
              k = bestSplitOf weights;
              laid = layoutTree rt config
          in 1 \<le> k \<and> k \<le> length (children rt)
           \<and> splitChildren vSpacing (children rt) = (take k (children rt), drop k (children rt))
           \<and> (\<forall>j \<le> length (children rt). imbalance weights k \<le> imbalance weights j)
           \<and> (\<forall>j. 1 \<le> j \<and> j < k \<longrightarrow> imbalance weights k < imbalance weights j)
           \<and> map (\<lambda>c. nodeId (dataOf c)) (children laid) = map (\<lambda>c. nodeId (dataOf c)) (children rt)
           \<and> (\<forall>i < length (children rt).
                 nodeX (dataOf (children laid ! i)) =
                   (if i < k then nodeX (dataOf laid) + nodeWidth (dataOf laid) + hSpacing * 0.5
                    else nodeX (dataOf laid) - hSpacing * 0.5 - nodeWidth (dataOf (children rt ! i)))))"
proof -
  define vSpacing where "vSpacing = verticalSpacing (structureCfg config) + 12"
  define hSpacing where "hSpacing = horizontalSpacing (structureCfg config) + 80"
  define weights where "weights = map (subtreeHeight vSpacing) (children rt)"
  define k where "k = bestSplitOf weights"
  define laid where "laid = layoutTree rt config"
  define d where "d = (dataOf rt)\<lparr> nodeX := - nodeWidth (dataOf rt) / 2, nodeY := - nodeHeight (dataOf rt) / 2 \<rparr>"
  define R where "R = assignRightChildren hSpacing vSpacing (take k (children rt))
              (nodeX d + nodeWidth d + hSpacing * 0.5)
              (- sum_list (map (subtreeHeight vSpacing) (take k (children rt))) / 2)"
  define L where "L = assignLeftChildren hSpacing vSpacing (drop k (children rt))
              (nodeX d - hSpacing * 0.5)
              (- sum_list (map (subtreeHeight vSpacing) (drop k (children rt))) / 2)"
  have wne: "weights \<noteq> []" using ne by (simp add: weights_def)
  have len: "length weights = length (children rt)" by (simp add: weights_def)
  note spec = bestSplitOf_spec [OF wne, folded k_def]
  have split: "splitChildren vSpacing (children rt) = (take k (children rt), drop k (children rt))"
    by (simp add: splitChildren_def Let_def k_def weights_def)
  have laid: "laid = LayoutNode d (R @ L)"
    by (simp add: laid_def layoutTree_def Let_def split [unfolded vSpacing_def] d_def R_def L_def
          vSpacing_def hSpacing_def)
  have klen: "k \<le> length (children rt)" using spec(2) len by simp
  have lenR: "length R = k" using assignRightChildren_nth [of hSpacing vSpacing "take k (children rt)"] klen
    by (simp add: R_def)
  have lenL: "length L = length (children rt) - k"
    using assignLeftChildren_nth [of hSpacing vSpacing "drop k (children rt)"] by (simp add: L_def)
  have Rnth: "\<forall>i < k. nodeX (dataOf (R ! i)) = nodeX d + nodeWidth d + hSpacing * 0.5
                     \<and> nodeId (dataOf (R ! i)) = nodeId (dataOf (children rt ! i))"
    using assignRightChildren_nth [of hSpacing vSpacing "take k (children rt)"] klen
    by (simp add: R_def)
  have Lnth: "\<forall>i < length (children rt) - k.
                 nodeX (dataOf (L ! i)) = nodeX d - hSpacing * 0.5 - nodeWidth (dataOf (children rt ! (k + i)))
               \<and> nodeId (dataOf (L ! i)) = nodeId (dataOf (children rt ! (k + i)))"
    using assignLeftChildren_nth [of hSpacing vSpacing "drop k (children rt)"] klen
    by (simp add: L_def)
  have ids: "map (\<lambda>c. nodeId (dataOf c)) (R @ L) = map (\<lambda>c. nodeId (dataOf c)) (children rt)"
  proof (rule nth_equalityI)
    show "length (map (\<lambda>c. nodeId (dataOf c)) (R @ L)) = length (map (\<lambda>c. nodeId (dataOf c)) (children rt))"
      using lenR lenL klen by simp
  next
    fix i assume "i < length (map (\<lambda>c. nodeId (dataOf c)) (R @ L))"
    then have i: "i < length (children rt)" using lenR lenL klen by simp
    show "map (\<lambda>c. nodeId (dataOf c)) (R @ L) ! i = map (\<lambda>c. nodeId (dataOf c)) (children rt) ! i"
    proof (cases "i < k")
      case True
      with Rnth lenR lenL i show ?thesis by (simp add: nth_append)
    next
      case False
      then have "i - k < length (children rt) - k" "k + (i - k) = i" using i by auto
      with Lnth lenR lenL i False show ?thesis by (simp add: nth_append)
    qed
  qed
  have xs: "\<forall>i < length (children rt).
                 nodeX (dataOf ((R @ L) ! i)) =
                   (if i < k then nodeX d + nodeWidth d + hSpacing * 0.5
                    else nodeX d - hSpacing * 0.5 - nodeWidth (dataOf (children rt ! i)))"
  proof (intro allI impI)
    fix i assume i: "i < length (children rt)"
    show "nodeX (dataOf ((R @ L) ! i)) =
                   (if i < k then nodeX d + nodeWidth d + hSpacing * 0.5
                    else nodeX d - hSpacing * 0.5 - nodeWidth (dataOf (children rt ! i)))"
    proof (cases "i < k")
      case True
      with Rnth lenR show ?thesis by (simp add: nth_append)
    next
      case False
      then have "i - k < length (children rt) - k" "k + (i - k) = i" using i by auto
      with Lnth lenR False show ?thesis by (simp add: nth_append)
    qed
  qed
  have "1 \<le> k \<and> k \<le> length (children rt)
           \<and> splitChildren vSpacing (children rt) = (take k (children rt), drop k (children rt))
           \<and> (\<forall>j \<le> length (children rt). imbalance weights k \<le> imbalance weights j)
           \<and> (\<forall>j. 1 \<le> j \<and> j < k \<longrightarrow> imbalance weights k < imbalance weights j)
           \<and> map (\<lambda>c. nodeId (dataOf c)) (children laid) = map (\<lambda>c. nodeId (dataOf c)) (children rt)
           \<and> (\<forall>i < length (children rt).
                 nodeX (dataOf (children laid ! i)) =
                   (if i < k then nodeX (dataOf laid) + nodeWidth (dataOf laid) + hSpacing * 0.5
                    else nodeX (dataOf laid) - hSpacing * 0.5 - nodeWidth (dataOf (children rt ! i))))"
    using spec len split ids xs klen by (simp add: laid)
  then show ?thesis
    unfolding Let_def vSpacing_def [symmetric] hSpacing_def [symmetric] weights_def [symmetric]
      k_def [symmetric] laid_def [symmetric] .
qed

lemma unbalancedTree_eval:
  "map (subtreeHeight 42) (children unbalancedTree) = [246, 82, 82]"
  "map (\<lambda>c. nodeId (dataOf c)) (children unbalancedTree) = [''a'', ''b'', ''c'']"
  "verticalSpacing (structureCfg (withLayout Tree defaultConfig)) + 12 = 42"
  by (simp_all add: unbalancedTree_def unbalancedSample_def leaf_def withLayout_def defaultConfig_def
        fixedMeasure_def calcNodeSize_def fontSizeFor_def)

theorem balanced_split_witness:
  "children unbalancedTree \<noteq> []
   \<and> bestSplitOf (map (subtreeHeight 42) (children unbalancedTree)) = 1
   \<and> map (\<lambda>c. nodeId (dataOf c)) (fst (splitChildren 42 (children unbalancedTree))) = [''a'']
   \<and> map (\<lambda>c. nodeId (dataOf c)) (snd (splitChildren 42 (children unbalancedTree))) = [''b'', ''c'']
   \<and> map (imbalance (map (subtreeHeight 42) (children unbalancedTree))) [0, 1, 2, 3] = [410, 82, 246, 410]
   \<and> map (\<lambda>c. nodeX (dataOf c)) (children (layoutTree unbalancedTree (withLayout Tree defaultConfig)))
        = [120, - 220, - 220]"
proof -
  have ne: "children unbalancedTree \<noteq> []"
    by (simp add: unbalancedTree_def unbalancedSample_def withLayout_def defaultConfig_def)
  have k: "bestSplitOf (map (subtreeHeight 42) (children unbalancedTree)) = 1"
    by (simp add: unbalancedTree_eval bestSplitOf_def)
  note th = balanced_split [OF ne, of "withLayout Tree defaultConfig", unfolded Let_def unbalancedTree_eval(3) k]
  from th have split: "splitChildren 42 (children unbalancedTree)
                        = (take 1 (children unbalancedTree), drop 1 (children unbalancedTree))"
    by blast
  have ids: "map (\<lambda>c. nodeId (dataOf c)) (fst (splitChildren 42 (children unbalancedTree))) = [''a'']"
            "map (\<lambda>c. nodeId (dataOf c)) (snd (splitChildren 42 (children unbalancedTree))) = [''b'', ''c'']"
    using unbalancedTree_eval(2) by (simp_all add: split take_map [symmetric] drop_map [symmetric])
  have imb: "map (imbalance (map (subtreeHeight 42) (children unbalancedTree))) [0, 1, 2, 3] = [410, 82, 246, 410]"
    by (simp add: unbalancedTree_eval imbalance_def)
  have xs: "map (\<lambda>c. nodeX (dataOf c)) (children (layoutTree unbalancedTree (withLayout Tree defaultConfig)))
        = [120, - 220, - 220]"
    by (simp add: layoutTree_def Let_def splitChildren_def bestSplitOf_def unbalancedTree_def unbalancedSample_def leaf_def withLayout_def defaultConfig_def
        fixedMeasure_def calcNodeSize_def fontSizeFor_def)
  from ne k ids imb xs show ?thesis by simp
qed

section \<open>Collision resolution: what it leaves unchanged\<close>

lemma relTree_refl:
  assumes "\<And>d. R d d"
  shows "relTree R t t"
proof (induction t)
  case (LayoutNode d cs)
  then have "list_all2 (relTree R) cs cs"
    by (simp add: list_all2_conv_all_nth)
  with assms show ?case by simp
qed

lemma relTree_trans:
  assumes tr: "transp R"
  shows "relTree R a b \<Longrightarrow> relTree R b c \<Longrightarrow> relTree R a c"
proof (induction a arbitrary: b c)
  case (LayoutNode d cs)
  obtain d1 cs1 where b: "b = LayoutNode d1 cs1" by (cases b)
  obtain d2 cs2 where c: "c = LayoutNode d2 cs2" by (cases c)
  from LayoutNode.prems have r1: "R d d1" and l1: "list_all2 (relTree R) cs cs1"
    and r2: "R d1 d2" and l2: "list_all2 (relTree R) cs1 cs2"
    by (simp_all add: b c)
  have "list_all2 (relTree R) cs cs2"
    unfolding list_all2_conv_all_nth
  proof (intro conjI allI impI)
    show "length cs = length cs2" using l1 l2 by (simp add: list_all2_lengthD)
  next
    fix i assume i: "i < length cs"
    then have "cs ! i \<in> set cs" by simp
    moreover have "relTree R (cs ! i) (cs1 ! i)" using l1 i by (simp add: list_all2_nthD)
    moreover have "relTree R (cs1 ! i) (cs2 ! i)" using l1 l2 i by (simp add: list_all2_nthD2 list_all2_lengthD list_all2_nthD)
    ultimately show "relTree R (cs ! i) (cs2 ! i)" by (rule LayoutNode.IH)
  qed
  with transpD [OF tr r1 r2] show ?case by (simp add: c)
qed

lemma relTree_updAt:
  assumes refl: "\<And>d. R d d" and g: "\<And>n. relTree R n (g n)"
  shows "relTree R t (updAt p g t)"
proof (induction p arbitrary: t)
  case Nil
  show ?case by (simp add: g)
next
  case (Cons k p)
  obtain d cs where t: "t = LayoutNode d cs" by (cases t)
  have "list_all2 (relTree R) cs (cs[k := updAt p g (cs ! k)])"
    unfolding list_all2_conv_all_nth
  proof (intro conjI allI impI)
    show "length cs = length (cs[k := updAt p g (cs ! k)])" by simp
  next
    fix i assume "i < length cs"
    then show "relTree R (cs ! i) (cs[k := updAt p g (cs ! k)] ! i)"
      using Cons.IH [of "cs ! k"] relTree_refl [where R = R, OF refl] by (cases "i = k") simp_all
  qed
  with refl show ?case by (simp add: t)
qed

lemma shift_as_translate:
  "shiftSubtreeXY dx dy n = LayoutNode (dataOf n) (map (translate dx dy) (children n))"
  "shiftChildrenXY dx dy cs = map (translate dx dy) cs"
  by (induction dx dy n and dx dy cs rule: shiftSubtreeXY_shiftChildrenXY.induct) simp_all

lemma pushY_translate: "pushY overlap n = translate 0 overlap n"
  by (cases n) (simp add: pushY_def shift_as_translate)

lemma pushX_translate: "pushX overlap n = translate overlap 0 n"
  by (cases n) (simp add: pushX_def shift_as_translate)

lemma moveBy_translate: "moveBy dx dy n = translate dx dy n"
  by (cases n) (simp add: moveBy_def shift_as_translate)

lemma relTree_translate:
  assumes R: "\<And>d. R d (d\<lparr> nodeX := nodeX d + dx, nodeY := nodeY d + dy \<rparr>)"
  shows "relTree R n (translate dx dy n)"
proof (induction n)
  case (LayoutNode d cs)
  then have "list_all2 (relTree R) cs (map (translate dx dy) cs)"
    by (simp add: list_all2_conv_all_nth)
  with R show ?case by simp
qed

lemma pushedY_refl: "pushedY d d" by (simp add: pushedY_def)
lemma pushedX_refl: "pushedX d d" by (simp add: pushedX_def)

lemma pushedY_trans: "transp pushedY"
proof (rule transpI)
  fix a b c assume "pushedY a b" "pushedY b c"
  then show "pushedY a c" by (cases a, cases b, cases c) (auto simp: pushedY_def)
qed

lemma pushedX_trans: "transp pushedX"
proof (rule transpI)
  fix a b c assume "pushedX a b" "pushedX b c"
  then show "pushedX a c" by (cases a, cases b, cases c) (auto simp: pushedX_def)
qed

lemma pushedY_fields:
  "pushedY d d' \<Longrightarrow> nodeId d' = nodeId d \<and> nodeWidth d' = nodeWidth d \<and> nodeHeight d' = nodeHeight d
      \<and> nodeDepth d' = nodeDepth d \<and> nodeX d' = nodeX d \<and> nodeY d \<le> nodeY d'"
  by (cases d, cases d') (auto simp: pushedY_def)

lemma pushedX_fields:
  "pushedX d d' \<Longrightarrow> nodeId d' = nodeId d \<and> nodeWidth d' = nodeWidth d \<and> nodeHeight d' = nodeHeight d
      \<and> nodeDepth d' = nodeDepth d \<and> nodeY d' = nodeY d \<and> nodeX d \<le> nodeX d'"
  by (cases d, cases d') (auto simp: pushedX_def)

lemma relTree_pushY: "0 \<le> overlap \<Longrightarrow> relTree pushedY n (pushY overlap n)"
  unfolding pushY_translate by (rule relTree_translate) (simp add: pushedY_def)

lemma relTree_pushX: "0 \<le> overlap \<Longrightarrow> relTree pushedX n (pushX overlap n)"
  unfolding pushX_translate by (rule relTree_translate) (simp add: pushedX_def)

lemma sweepY_frame: "relTree pushedY t (sweepY prev rest t)"
proof (induction rest arbitrary: prev t)
  case Nil
  show ?case by (simp add: relTree_refl pushedY_refl)
next
  case (Cons cur rest)
  define overlap where "overlap = nodeY (dataOf (nodeAt prev t)) + nodeHeight (dataOf (nodeAt prev t)) + 14
                      - nodeY (dataOf (nodeAt cur t))"
  define t1 where "t1 = (if overlap > 0 then updAt cur (pushY overlap) t else t)"
  have "relTree pushedY t t1"
  proof (cases "overlap > 0")
    case True
    then have "\<And>n. relTree pushedY n (pushY overlap n)" by (simp add: relTree_pushY)
    then have "relTree pushedY t (updAt cur (pushY overlap) t)"
      by (intro relTree_updAt pushedY_refl)
    with True show ?thesis by (simp add: t1_def)
  next
    case False
    then show ?thesis by (simp add: t1_def relTree_refl pushedY_refl)
  qed
  moreover have "relTree pushedY t1 (sweepY cur rest t1)" by (rule Cons.IH)
  moreover have "sweepY prev (cur # rest) t = sweepY cur rest t1"
    by (simp add: Let_def overlap_def t1_def)
  ultimately show ?case using relTree_trans [OF pushedY_trans] by simp
qed

lemma sweepX_frame: "relTree pushedX t (sweepX prev rest t)"
proof (induction rest arbitrary: prev t)
  case Nil
  show ?case by (simp add: relTree_refl pushedX_refl)
next
  case (Cons cur rest)
  define overlap where "overlap = nodeX (dataOf (nodeAt prev t)) + nodeWidth (dataOf (nodeAt prev t)) + 14
                      - nodeX (dataOf (nodeAt cur t))"
  define t1 where "t1 = (if overlap > 0 then updAt cur (pushX overlap) t else t)"
  have "relTree pushedX t t1"
  proof (cases "overlap > 0")
    case True
    then have "\<And>n. relTree pushedX n (pushX overlap n)" by (simp add: relTree_pushX)
    then have "relTree pushedX t (updAt cur (pushX overlap) t)"
      by (intro relTree_updAt pushedX_refl)
    with True show ?thesis by (simp add: t1_def)
  next
    case False
    then show ?thesis by (simp add: t1_def relTree_refl pushedX_refl)
  qed
  moreover have "relTree pushedX t1 (sweepX cur rest t1)" by (rule Cons.IH)
  moreover have "sweepX prev (cur # rest) t = sweepX cur rest t1"
    by (simp add: Let_def overlap_def t1_def)
  ultimately show ?case using relTree_trans [OF pushedX_trans] by simp
qed

lemma resolveLevelY_frame: "relTree pushedY t (resolveLevelY depthNodes t)"
  by (simp add: resolveLevelY_def sweepY_frame relTree_refl pushedY_refl split: list.splits)

lemma resolveLevelX_frame: "relTree pushedX t (resolveLevelX depthNodes t)"
  by (simp add: resolveLevelX_def sweepX_frame relTree_refl pushedX_refl split: list.splits)

lemma fold_levels_frame:
  assumes refl: "\<And>d. R d d" and tr: "transp R"
    and step: "\<And>depthNodes t. relTree R t (f depthNodes t)"
  shows "relTree R t (fold (\<lambda>(k, depthNodes) t. f depthNodes t) levels t)"
proof (induction levels arbitrary: t)
  case Nil
  show ?case by (simp add: relTree_refl refl)
next
  case (Cons lv levels)
  obtain k depthNodes where lv: "lv = (k, depthNodes)" by (cases lv)
  have "relTree R t (f depthNodes t)" by (rule step)
  moreover have "relTree R (f depthNodes t) (fold (\<lambda>(k, depthNodes) t. f depthNodes t) levels (f depthNodes t))"
    by (rule Cons.IH)
  ultimately have "relTree R t (fold (\<lambda>(k, depthNodes) t. f depthNodes t) levels (f depthNodes t))"
    by (rule relTree_trans [OF tr])
  then show ?case by (simp add: lv)
qed

lemma relTree_collectNodes:
  "relTree R a b \<Longrightarrow> list_all2 (\<lambda>n n'. R (dataOf n) (dataOf n')) (collectNodes a) (collectNodes b)"
proof (induction a arbitrary: b)
  case (LayoutNode d cs)
  obtain d' cs' where b: "b = LayoutNode d' cs'" by (cases b)
  from LayoutNode.prems have r: "R d d'" and l: "list_all2 (relTree R) cs cs'" by (simp_all add: b)
  from l LayoutNode.IH
  have "list_all2 (\<lambda>n n'. R (dataOf n) (dataOf n')) (concat (map collectNodes cs)) (concat (map collectNodes cs'))"
  proof (induction cs cs' rule: list_all2_induct)
    case Nil
    show ?case by simp
  next
    case (Cons x xs y ys)
    then show ?case by (auto intro!: list_all2_appendI)
  qed
  with r show ?case by (simp add: b)
qed

text \<open>
  C10. Outside the radial layout, collision resolution keeps the number and order of the
  nodes and the id, width, height and depth of each one. In the vertical layout it also
  keeps every \<open>y\<close> and does not decrease any \<open>x\<close>; in the other layouts it keeps every
  \<open>x\<close> and does not decrease any \<open>y\<close>. This holds for whatever list of references
  the function is given.
\<close>

theorem resolveCollisions_frame:
  assumes "lay \<noteq> Radial"
  shows "length (collectNodes (resolveCollisions nodes lay t)) = length (collectNodes t)
       \<and> (\<forall>i < length (collectNodes t).
            nodeId (dataOf (collectNodes (resolveCollisions nodes lay t) ! i)) = nodeId (dataOf (collectNodes t ! i))
          \<and> nodeWidth (dataOf (collectNodes (resolveCollisions nodes lay t) ! i)) = nodeWidth (dataOf (collectNodes t ! i))
          \<and> nodeHeight (dataOf (collectNodes (resolveCollisions nodes lay t) ! i)) = nodeHeight (dataOf (collectNodes t ! i))
          \<and> nodeDepth (dataOf (collectNodes (resolveCollisions nodes lay t) ! i)) = nodeDepth (dataOf (collectNodes t ! i))
          \<and> (if lay = Vertical
              then nodeY (dataOf (collectNodes (resolveCollisions nodes lay t) ! i)) = nodeY (dataOf (collectNodes t ! i))
                 \<and> nodeX (dataOf (collectNodes t ! i)) \<le> nodeX (dataOf (collectNodes (resolveCollisions nodes lay t) ! i))
              else nodeX (dataOf (collectNodes (resolveCollisions nodes lay t) ! i)) = nodeX (dataOf (collectNodes t ! i))
                 \<and> nodeY (dataOf (collectNodes t ! i)) \<le> nodeY (dataOf (collectNodes (resolveCollisions nodes lay t) ! i))))"
proof (cases "lay = Vertical")
  case True
  have "relTree pushedX t (resolveCollisions nodes lay t)"
    using True by (simp add: resolveCollisions_def fold_levels_frame [where R = pushedX, OF pushedX_refl pushedX_trans resolveLevelX_frame])
  from relTree_collectNodes [OF this]
  have l: "list_all2 (\<lambda>n n'. pushedX (dataOf n) (dataOf n')) (collectNodes t) (collectNodes (resolveCollisions nodes lay t))" .
  have "\<forall>i < length (collectNodes t). pushedX (dataOf (collectNodes t ! i)) (dataOf (collectNodes (resolveCollisions nodes lay t) ! i))"
    using l by (simp add: list_all2_conv_all_nth)
  moreover have "\<And>d d'. pushedX d d' \<Longrightarrow> nodeId d' = nodeId d \<and> nodeWidth d' = nodeWidth d \<and> nodeHeight d' = nodeHeight d
      \<and> nodeDepth d' = nodeDepth d \<and> nodeY d' = nodeY d \<and> nodeX d \<le> nodeX d'"
    by (rule pushedX_fields)
  ultimately show ?thesis using True l by (simp add: list_all2_lengthD)
next
  case False
  have "relTree pushedY t (resolveCollisions nodes lay t)"
    using False assms by (simp add: resolveCollisions_def fold_levels_frame [where R = pushedY, OF pushedY_refl pushedY_trans resolveLevelY_frame])
  from relTree_collectNodes [OF this]
  have l: "list_all2 (\<lambda>n n'. pushedY (dataOf n) (dataOf n')) (collectNodes t) (collectNodes (resolveCollisions nodes lay t))" .
  have "\<forall>i < length (collectNodes t). pushedY (dataOf (collectNodes t ! i)) (dataOf (collectNodes (resolveCollisions nodes lay t) ! i))"
    using l by (simp add: list_all2_conv_all_nth)
  moreover have "\<And>d d'. pushedY d d' \<Longrightarrow> nodeId d' = nodeId d \<and> nodeWidth d' = nodeWidth d \<and> nodeHeight d' = nodeHeight d
      \<and> nodeDepth d' = nodeDepth d \<and> nodeX d' = nodeX d \<and> nodeY d \<le> nodeY d'"
    by (rule pushedY_fields)
  ultimately show ?thesis using False l by (simp add: list_all2_lengthD)
qed

lemma crossLaid_before:
  "map (\<lambda>n. (nodeId (dataOf n), nodeX (dataOf n), nodeY (dataOf n))) (collectNodes crossLaid)
     = [(''root'', - 50, - 20), (''a'', 120, - 20), (''a1'', 260, - 61), (''a2'', 260, 21),
        (''b'', - 220, - 20), (''b1'', - 360, - 20)]"
  by (simp add: crossLaid_def crossSample_def leaf_def withLayout_def defaultConfig_def fixedMeasure_def
        applyLayout_def layoutTree_def splitChildren_def bestSplitOf_def calcNodeSize_def fontSizeFor_def Let_def)

lemma crossLaid_after:
  "map (\<lambda>n. (nodeId (dataOf n), nodeX (dataOf n), nodeY (dataOf n)))
       (collectNodes (resolveCollisions (collectPaths crossLaid) Tree crossLaid))
     = [(''root'', - 50, - 20), (''a'', 120, - 20), (''a1'', 260, - 61), (''a2'', 260, 21),
        (''b'', - 220, 34), (''b1'', - 360, 75)]"
  by (simp add: crossLaid_def crossSample_def leaf_def withLayout_def defaultConfig_def fixedMeasure_def
        applyLayout_def layoutTree_def splitChildren_def bestSplitOf_def calcNodeSize_def fontSizeFor_def Let_def
        resolveCollisions_def byDepth_def resolveLevelY_def pushY_def)

theorem resolveCollisions_frame_witness:
  "Tree \<noteq> Radial
   \<and> length (collectNodes (resolveCollisions (collectPaths crossLaid) Tree crossLaid)) = 6
   \<and> nodeId (dataOf (collectNodes crossLaid ! 5)) = ''b1''
   \<and> nodeX (dataOf (collectNodes crossLaid ! 5)) = - 360
   \<and> nodeY (dataOf (collectNodes crossLaid ! 5)) = - 20
   \<and> nodeX (dataOf (collectNodes (resolveCollisions (collectPaths crossLaid) Tree crossLaid) ! 5)) = - 360
   \<and> nodeY (dataOf (collectNodes (resolveCollisions (collectPaths crossLaid) Tree crossLaid) ! 5)) = 75"
proof -
  have ne: "Tree \<noteq> Radial" by simp
  have len: "length (collectNodes crossLaid) = 6"
    using arg_cong [OF crossLaid_before, of length] by simp
  note frame = resolveCollisions_frame [OF ne, of "collectPaths crossLaid" crossLaid]
  from frame len have len': "length (collectNodes (resolveCollisions (collectPaths crossLaid) Tree crossLaid)) = 6"
    by simp
  from frame len
  have same: "nodeX (dataOf (collectNodes (resolveCollisions (collectPaths crossLaid) Tree crossLaid) ! 5))
                = nodeX (dataOf (collectNodes crossLaid ! 5))"
    by simp
  have b: "(nodeId (dataOf (collectNodes crossLaid ! 5)), nodeX (dataOf (collectNodes crossLaid ! 5)),
            nodeY (dataOf (collectNodes crossLaid ! 5))) = (''b1'', - 360, - 20)"
    using arg_cong [OF crossLaid_before, of "\<lambda>l. l ! 5"] len by simp
  have a: "nodeY (dataOf (collectNodes (resolveCollisions (collectPaths crossLaid) Tree crossLaid) ! 5)) = 75"
    using arg_cong [OF crossLaid_after, of "\<lambda>l. l ! 5"] len' by simp
  from ne len' same a b show ?thesis by simp
qed

section \<open>Collision resolution: the order within a level\<close>

subsection \<open>Paths\<close>

lemma collectPathsFrom_set:
  "set (collectPathsFrom k cs) = {(k + i) # p | i p. i < length cs \<and> p \<in> set (collectPaths (cs ! i))}"
proof (induction cs arbitrary: k)
  case Nil
  show ?case by simp
next
  case (Cons c cs)
  have "{(k + i) # p | i p. i < length (c # cs) \<and> p \<in> set (collectPaths ((c # cs) ! i))}
        = {k # p | p. p \<in> set (collectPaths c)}
          \<union> {(Suc k + i) # p | i p. i < length cs \<and> p \<in> set (collectPaths (cs ! i))}"
    (is "?A = ?B \<union> ?C")
  proof (intro set_eqI iffI)
    fix x assume "x \<in> ?A"
    then obtain i p where x: "x = (k + i) # p" and i: "i < length (c # cs)"
      and p: "p \<in> set (collectPaths ((c # cs) ! i))" by blast
    show "x \<in> ?B \<union> ?C"
    proof (cases i)
      case 0
      with x p show ?thesis by simp
    next
      case (Suc j)
      with x i p have "x = (Suc k + j) # p \<and> j < length cs \<and> p \<in> set (collectPaths (cs ! j))" by simp
      then show ?thesis by blast
    qed
  next
    fix x assume "x \<in> ?B \<union> ?C"
    then show "x \<in> ?A"
    proof
      assume "x \<in> ?B"
      then obtain p where "x = (k + 0) # p" "0 < length (c # cs)" "p \<in> set (collectPaths ((c # cs) ! 0))"
        by auto
      then show ?thesis by blast
    next
      assume "x \<in> ?C"
      then obtain j p where "x = (k + Suc j) # p" "Suc j < length (c # cs)" "p \<in> set (collectPaths ((c # cs) ! Suc j))"
        by auto
      then show ?thesis by blast
    qed
  qed
  with Cons.IH [of "Suc k"] show ?case by auto
qed

lemma collectPaths_set:
  "set (collectPaths n) = insert [] {i # p | i p. i < length (children n) \<and> p \<in> set (collectPaths (children n ! i))}"
  by (cases n) (simp add: collectPathsFrom_set)

lemma collectPaths_valid: "p \<in> set (collectPaths n) \<Longrightarrow> validPath p n"
proof (induction p arbitrary: n)
  case Nil
  show ?case by simp
next
  case (Cons k p)
  from Cons.prems have "k < length (children n) \<and> p \<in> set (collectPaths (children n ! k))"
    by (subst (asm) collectPaths_set) auto
  with Cons.IH show ?case by simp
qed

lemma collectPathsFrom_distinct:
  assumes "\<And>c. c \<in> set cs \<Longrightarrow> distinct (collectPaths c)"
  shows "distinct (collectPathsFrom k cs)"
  using assms
proof (induction cs arbitrary: k)
  case Nil
  show ?case by simp
next
  case (Cons c cs)
  have d1: "distinct (map ((#) k) (collectPaths c))"
    using Cons.prems by (simp add: distinct_map inj_on_def)
  have d2: "distinct (collectPathsFrom (Suc k) cs)"
    using Cons by simp
  have "set (map ((#) k) (collectPaths c)) \<inter> set (collectPathsFrom (Suc k) cs) = {}"
    by (auto simp: collectPathsFrom_set)
  with d1 d2 show ?case by simp
qed

lemma collectPaths_distinct: "distinct (collectPaths n)"
proof (induction n)
  case (LayoutNode d cs)
  have "distinct (collectPathsFrom 0 cs)"
    using LayoutNode.IH by (rule collectPathsFrom_distinct)
  moreover have "[] \<notin> set (collectPathsFrom 0 cs)"
    by (simp add: collectPathsFrom_set)
  ultimately show ?case by simp
qed

lemma wfDepth_nodeAt:
  "wfDepth t \<Longrightarrow> validPath p t \<Longrightarrow>
   nodeDepth (dataOf (nodeAt p t)) = nodeDepth (dataOf t) + length p"
proof (induction p arbitrary: t)
  case Nil
  show ?case by simp
next
  case (Cons k p)
  obtain d cs where t: "t = LayoutNode d cs" by (cases t)
  from Cons.prems have k: "k < length cs" and v: "validPath p (cs ! k)" by (simp_all add: t)
  then have mem: "cs ! k \<in> set cs" by simp
  with Cons.prems(1) have "nodeDepth (dataOf (cs ! k)) = nodeDepth d + 1" and "wfDepth (cs ! k)"
    by (auto simp: t)
  with Cons.IH [OF _ v] show ?case by (simp add: t)
qed

subsection \<open>Reading and writing through paths\<close>

lemma nodeAt_updAt_same:
  "validPath p t \<Longrightarrow> nodeAt p (updAt p g t) = g (nodeAt p t)"
  by (induction p arbitrary: t) simp_all

lemma nodeAt_updAt_other:
  "length p = length q \<Longrightarrow> p \<noteq> q \<Longrightarrow> nodeAt q (updAt p g t) = nodeAt q t"
proof (induction p arbitrary: q t)
  case Nil
  then show ?case by simp
next
  case (Cons k p)
  then obtain j q' where q: "q = j # q'" by (cases q) auto
  show ?case
  proof (cases "j = k")
    case False
    then show ?thesis by (simp add: q)
  next
    case True
    with Cons.prems q have neq: "p \<noteq> q'" and len: "length p = length q'" by auto
    show ?thesis
    proof (cases "k < length (children t)")
      case True
      with Cons.IH [OF len neq] \<open>j = k\<close> show ?thesis by (simp add: q)
    next
      case False
      then have "(children t)[k := updAt p g (children t ! k)] = children t"
        by (intro list_update_beyond) simp
      with \<open>j = k\<close> show ?thesis by (simp add: q)
    qed
  qed
qed

lemma relTree_validPath:
  "relTree R a b \<Longrightarrow> validPath p a = validPath p b"
proof (induction p arbitrary: a b)
  case Nil
  show ?case by simp
next
  case (Cons k p)
  obtain d cs where a: "a = LayoutNode d cs" by (cases a)
  obtain d' cs' where b: "b = LayoutNode d' cs'" by (cases b)
  from Cons.prems have l: "list_all2 (relTree R) cs cs'" by (simp add: a b)
  then have len: "length cs = length cs'" by (rule list_all2_lengthD)
  show ?case
  proof (cases "k < length cs")
    case True
    with l have "relTree R (cs ! k) (cs' ! k)" by (simp add: list_all2_nthD)
    from Cons.IH [OF this] True len show ?thesis by (simp add: a b)
  next
    case False
    with len show ?thesis by (simp add: a b)
  qed
qed

lemma relTree_nodeAt:
  "relTree R a b \<Longrightarrow> validPath p a \<Longrightarrow> relTree R (nodeAt p a) (nodeAt p b)"
proof (induction p arbitrary: a b)
  case Nil
  then show ?case by simp
next
  case (Cons k p)
  obtain d cs where a: "a = LayoutNode d cs" by (cases a)
  obtain d' cs' where b: "b = LayoutNode d' cs'" by (cases b)
  from Cons.prems have l: "list_all2 (relTree R) cs cs'" and k: "k < length cs"
    and v: "validPath p (cs ! k)" by (simp_all add: a b)
  from l k have "relTree R (cs ! k) (cs' ! k)" by (simp add: list_all2_nthD)
  from Cons.IH [OF this v] show ?case by (simp add: a b)
qed

lemma relTree_data: "relTree R a b \<Longrightarrow> R (dataOf a) (dataOf b)"
  by (cases a, cases b) simp

lemma relTree_collectPaths:
  "relTree R a b \<Longrightarrow> collectPaths a = collectPaths b"
proof (induction a arbitrary: b)
  case (LayoutNode d cs)
  obtain d' cs' where b: "b = LayoutNode d' cs'" by (cases b)
  from LayoutNode.prems have l: "list_all2 (relTree R) cs cs'" by (simp add: b)
  from l LayoutNode.IH have "collectPathsFrom k cs = collectPathsFrom k cs'" for k
  proof (induction cs cs' arbitrary: k rule: list_all2_induct)
    case Nil
    show ?case by simp
  next
    case (Cons x xs y ys)
    then show ?case by simp
  qed
  then show ?case by (simp add: b)
qed

lemma nodeAt_in_collectNodes:
  "p \<in> set (collectPaths t) \<Longrightarrow> nodeAt p t \<in> set (collectNodes t)"
proof (induction p arbitrary: t)
  case Nil
  show ?case by (cases t) simp
next
  case (Cons k p)
  obtain d cs where t: "t = LayoutNode d cs" by (cases t)
  from Cons.prems have k: "k < length cs" and p: "p \<in> set (collectPaths (cs ! k))"
    by (subst (asm) collectPaths_set, auto simp: t)+
  from Cons.IH [OF p] k show ?case by (auto simp: t)
qed

subsection \<open>One level's sweep\<close>

lemma translate_data:
  "dataOf (translate dx dy n) = (dataOf n)\<lparr> nodeX := nodeX (dataOf n) + dx, nodeY := nodeY (dataOf n) + dy \<rparr>"
  by (cases n) simp

lemma sweepY_step:
  "sweepY prev (cur # rest) t =
     sweepY cur rest
       (if nodeY (dataOf (nodeAt prev t)) + nodeHeight (dataOf (nodeAt prev t)) + 14
             - nodeY (dataOf (nodeAt cur t)) > 0
        then updAt cur (pushY (nodeY (dataOf (nodeAt prev t)) + nodeHeight (dataOf (nodeAt prev t)) + 14
             - nodeY (dataOf (nodeAt cur t)))) t
        else t)"
  by (simp add: Let_def)

lemma sweepY_untouched:
  "length q = m \<Longrightarrow> \<forall>p \<in> set rest. length p = m \<Longrightarrow> q \<notin> set rest \<Longrightarrow>
   nodeAt q (sweepY prev rest t) = nodeAt q t"
proof (induction rest arbitrary: prev t)
  case Nil
  show ?case by simp
next
  case (Cons cur rest)
  from Cons.prems have neq: "cur \<noteq> q" and len: "length cur = length q" by auto
  have "nodeAt q (sweepY prev (cur # rest) t) =
        nodeAt q (if nodeY (dataOf (nodeAt prev t)) + nodeHeight (dataOf (nodeAt prev t)) + 14
             - nodeY (dataOf (nodeAt cur t)) > 0
        then updAt cur (pushY (nodeY (dataOf (nodeAt prev t)) + nodeHeight (dataOf (nodeAt prev t)) + 14
             - nodeY (dataOf (nodeAt cur t)))) t
        else t)"
    unfolding sweepY_step using Cons.prems by (intro Cons.IH) auto
  also have "\<dots> = nodeAt q t"
    using nodeAt_updAt_other [OF len neq] by simp
  finally show ?case .
qed

lemma sweepY_chain:
  assumes "distinct (prev # rest)"
    and "\<forall>p \<in> set (prev # rest). length p = m \<and> validPath p t"
  shows "chainY (sweepY prev rest t) (prev # rest)"
  using assms
proof (induction rest arbitrary: prev t)
  case Nil
  show ?case by simp
next
  case (Cons cur rest)
  define overlap where "overlap = nodeY (dataOf (nodeAt prev t)) + nodeHeight (dataOf (nodeAt prev t)) + 14
             - nodeY (dataOf (nodeAt cur t))"
  define t1 where "t1 = (if overlap > 0 then updAt cur (pushY overlap) t else t)"
  have step: "sweepY prev (cur # rest) t = sweepY cur rest t1"
    unfolding sweepY_step t1_def overlap_def ..
  from Cons.prems have lens: "length prev = m" "length cur = m" "\<forall>p \<in> set rest. length p = m"
    and neq: "cur \<noteq> prev" and nin: "prev \<notin> set rest" "cur \<notin> set rest"
    and vcur: "validPath cur t" and dist: "distinct (cur # rest)"
    by auto
  have rel: "relTree pushedY t t1"
  proof (cases "overlap > 0")
    case True
    then have "\<And>n. relTree pushedY n (pushY overlap n)" by (simp add: relTree_pushY)
    then have "relTree pushedY t (updAt cur (pushY overlap) t)"
      by (intro relTree_updAt pushedY_refl)
    with True show ?thesis by (simp add: t1_def)
  next
    case False
    then show ?thesis by (simp add: t1_def relTree_refl pushedY_refl)
  qed
  have valid1: "\<forall>p \<in> set (cur # rest). length p = m \<and> validPath p t1"
    using Cons.prems(2) relTree_validPath [OF rel] by auto
  have IH: "chainY (sweepY cur rest t1) (cur # rest)"
    using dist valid1 by (rule Cons.IH)
  have prev1: "nodeAt prev t1 = nodeAt prev t"
    using nodeAt_updAt_other [of cur prev] lens neq by (simp add: t1_def)
  have cur1: "nodeY (dataOf (nodeAt cur t1))
                \<ge> nodeY (dataOf (nodeAt prev t)) + nodeHeight (dataOf (nodeAt prev t)) + 14"
  proof (cases "overlap > 0")
    case True
    then have "nodeAt cur t1 = pushY overlap (nodeAt cur t)"
      using vcur by (simp add: t1_def nodeAt_updAt_same)
    then show ?thesis by (simp add: pushY_translate translate_data overlap_def)
  next
    case False
    then show ?thesis by (simp add: t1_def overlap_def)
  qed
  have prevF: "nodeAt prev (sweepY cur rest t1) = nodeAt prev t1"
    using lens nin by (intro sweepY_untouched [where m = m]) auto
  have curF: "nodeAt cur (sweepY cur rest t1) = nodeAt cur t1"
    using lens nin by (intro sweepY_untouched [where m = m]) auto
  show ?case
    unfolding step using IH cur1 by (simp add: prevF curF prev1)
qed

lemma chainY_strict:
  "chainY t ps \<Longrightarrow> \<forall>p \<in> set ps. 0 \<le> nodeHeight (dataOf (nodeAt p t)) \<Longrightarrow>
   sorted_wrt (\<lambda>p q. nodeY (dataOf (nodeAt p t)) < nodeY (dataOf (nodeAt q t))) ps"
proof (induction t ps rule: chainY.induct)
  case (1 t p q ps)
  then have IH: "sorted_wrt (\<lambda>p q. nodeY (dataOf (nodeAt p t)) < nodeY (dataOf (nodeAt q t))) (q # ps)"
    by simp
  from 1 have pq: "nodeY (dataOf (nodeAt p t)) < nodeY (dataOf (nodeAt q t))" by simp
  with IH have "\<forall>r \<in> set (q # ps). nodeY (dataOf (nodeAt p t)) < nodeY (dataOf (nodeAt r t))"
    by auto
  with IH show ?case by simp
qed simp_all

lemma sort_key_unique:
  fixes f :: "'a \<Rightarrow> real"
  assumes st: "sorted_wrt (\<lambda>p q. f p < f q) S" and set: "set S = set L" and dL: "distinct L"
  shows "sort_key f L = S"
proof (rule map_sorted_distinct_set_unique [where f = f])
  have sw: "sorted_wrt (<) (map f S)" using st by (simp add: sorted_wrt_map)
  then have sS: "sorted (map f S)" and dS: "distinct (map f S)"
    by (simp_all add: strict_sorted_iff)
  from dS have inj: "inj_on f (set S)" by (simp add: distinct_map)
  show "inj_on f (set (sort_key f L) \<union> set S)" using inj set by simp
  show "sorted (map f (sort_key f L))" by simp
  show "distinct (map f (sort_key f L))" using inj set dL by (simp add: distinct_map)
  show "sorted (map f S)" by (rule sS)
  show "distinct (map f S)" by (rule dS)
  show "set (sort_key f L) = set S" using set by simp
qed

lemma levelPaths_props:
  assumes wf: "wfDepth t" and p: "p \<in> set (levelPaths t k)"
  shows "p \<in> set (collectPaths t)" and "validPath p t"
    and "length p = k - nodeDepth (dataOf t)"
proof -
  from p have mem: "p \<in> set (collectPaths t)"
    by (simp add: levelPaths_def)
  then show "p \<in> set (collectPaths t)" .
  from mem have v: "validPath p t" by (rule collectPaths_valid)
  then show "validPath p t" .
  from p have "nodeDepth (dataOf (nodeAt p t)) = k" by (simp add: levelPaths_def)
  with wfDepth_nodeAt [OF wf v] show "length p = k - nodeDepth (dataOf t)" by simp
qed

lemma levelPaths_rel:
  assumes rel: "relTree R t t'" and keep: "\<And>d d'. R d d' \<Longrightarrow> nodeDepth d' = nodeDepth d"
  shows "levelPaths t' k = levelPaths t k"
proof -
  have paths: "collectPaths t' = collectPaths t"
    using relTree_collectPaths [OF rel] by simp
  have "filter (\<lambda>p. nodeDepth (dataOf (nodeAt p t')) = k) (collectPaths t)
        = filter (\<lambda>p. nodeDepth (dataOf (nodeAt p t)) = k) (collectPaths t)"
  proof (rule filter_cong [OF refl])
    fix p assume "p \<in> set (collectPaths t)"
    then have "validPath p t" by (rule collectPaths_valid)
    from relTree_data [OF relTree_nodeAt [OF rel this]]
    have "nodeDepth (dataOf (nodeAt p t')) = nodeDepth (dataOf (nodeAt p t))" by (rule keep)
    then show "(nodeDepth (dataOf (nodeAt p t')) = k) = (nodeDepth (dataOf (nodeAt p t)) = k)" by simp
  qed
  with paths show ?thesis by (simp add: levelPaths_def)
qed

lemma resolveLevelY_order:
  assumes wf: "wfDepth t"
    and h: "\<forall>n \<in> set (collectNodes t). 0 \<le> nodeHeight (dataOf n)"
  shows "levelOrder nodeY (resolveLevelY (levelPaths t k) t) k = levelOrder nodeY t k"
proof (cases "levelOrder nodeY t k")
  case Nil
  then show ?thesis by (simp add: resolveLevelY_def levelOrder_def)
next
  case (Cons first rest)
  define S where "S = first # rest"
  define t' where "t' = sweepY first rest t"
  have S: "S = sort_key (\<lambda>p. nodeY (dataOf (nodeAt p t))) (levelPaths t k)"
    using Cons by (simp add: S_def levelOrder_def)
  have res: "resolveLevelY (levelPaths t k) t = t'"
    using Cons by (simp add: resolveLevelY_def levelOrder_def t'_def)
  have setS: "set S = set (levelPaths t k)" by (simp add: S)
  have dL: "distinct (levelPaths t k)" by (simp add: levelPaths_def collectPaths_distinct)
  then have dS: "distinct S" by (simp add: S)
  have props: "\<forall>p \<in> set S. length p = k - nodeDepth (dataOf t) \<and> validPath p t"
    using levelPaths_props [OF wf] setS by blast
  have chain: "chainY t' S"
    unfolding t'_def S_def using dS props by (intro sweepY_chain [where m = "k - nodeDepth (dataOf t)"]) (simp_all add: S_def)
  have rel: "relTree pushedY t t'" unfolding t'_def by (rule sweepY_frame)
  have heights: "\<forall>p \<in> set S. 0 \<le> nodeHeight (dataOf (nodeAt p t'))"
  proof
    fix p assume p: "p \<in> set S"
    with setS have pl: "p \<in> set (levelPaths t k)" by simp
    have "nodeAt p t \<in> set (collectNodes t)"
      by (rule nodeAt_in_collectNodes) (rule levelPaths_props(1) [OF wf pl])
    with h have "0 \<le> nodeHeight (dataOf (nodeAt p t))" by blast
    moreover have "pushedY (dataOf (nodeAt p t)) (dataOf (nodeAt p t'))"
      by (rule relTree_data [OF relTree_nodeAt [OF rel levelPaths_props(2) [OF wf pl]]])
    ultimately show "0 \<le> nodeHeight (dataOf (nodeAt p t'))"
      using pushedY_fields by metis
  qed
  have strict: "sorted_wrt (\<lambda>p q. nodeY (dataOf (nodeAt p t')) < nodeY (dataOf (nodeAt q t'))) S"
    using chain heights by (rule chainY_strict)
  have lev: "levelPaths t' k = levelPaths t k"
    using rel pushedY_fields by (intro levelPaths_rel [where R = pushedY]) auto
  have "sort_key (\<lambda>p. nodeY (dataOf (nodeAt p t'))) (levelPaths t k) = S"
    using strict setS dL by (rule sort_key_unique)
  then show ?thesis by (simp add: res levelOrder_def lev S)
qed

subsection \<open>The levels of byDepth\<close>

lemma addToDepth_map_of:
  "map_of (addToDepth k p m) =
     (map_of m)(k \<mapsto> (case map_of m k of None \<Rightarrow> [p] | Some arr \<Rightarrow> arr @ [p]))"
proof (induction m)
  case Nil
  show ?case by simp
next
  case (Cons e m)
  obtain k' arr where e: "e = (k', arr)" by (cases e)
  show ?case
  proof (cases "k' = k")
    case True
    then show ?thesis by (auto simp: e)
  next
    case False
    then show ?thesis using Cons.IH by (auto simp: e fun_upd_twist)
  qed
qed

lemma addToDepth_keys: "fst ` set (addToDepth k p m) = insert k (fst ` set m)"
proof (induction m)
  case Nil
  show ?case by simp
next
  case (Cons e m)
  obtain k' arr where e: "e = (k', arr)" by (cases e)
  show ?case
  proof (cases "k' = k")
    case True
    then show ?thesis by (auto simp: e)
  next
    case False
    then have "fst ` set (addToDepth k p (e # m)) = insert k' (fst ` set (addToDepth k p m))"
      by (simp add: e)
    also have "\<dots> = insert k (fst ` set (e # m))"
      by (simp add: Cons.IH e insert_commute)
    finally show ?thesis .
  qed
qed

lemma addToDepth_distinct:
  "distinct (map fst m) \<Longrightarrow> distinct (map fst (addToDepth k p m))"
proof (induction m)
  case Nil
  show ?case by simp
next
  case (Cons e m)
  obtain k' arr where e: "e = (k', arr)" by (cases e)
  show ?case
  proof (cases "k' = k")
    case True
    with Cons.prems show ?thesis by (simp add: e)
  next
    case False
    have "k' \<notin> fst ` set (addToDepth k p m)"
      using Cons.prems False by (simp add: addToDepth_keys e)
    with Cons False show ?thesis by (simp add: e)
  qed
qed

lemma fold_addToDepth_distinct:
  "distinct (map fst m) \<Longrightarrow> distinct (map fst (fold (\<lambda>p m. addToDepth (dk p) p m) ps m))"
  by (induction ps arbitrary: m) (simp_all add: addToDepth_distinct)

lemma fold_addToDepth_map_of:
  "map_of (fold (\<lambda>p m. addToDepth (dk p) p m) ps m) k =
     (case map_of m k of
        None \<Rightarrow> (if filter (\<lambda>p. dk p = k) ps = [] then None else Some (filter (\<lambda>p. dk p = k) ps))
      | Some arr \<Rightarrow> Some (arr @ filter (\<lambda>p. dk p = k) ps))"
proof (induction ps arbitrary: m)
  case Nil
  show ?case by (simp split: option.splits)
next
  case (Cons p ps)
  show ?case
    by (simp add: Cons.IH addToDepth_map_of split: option.splits)
qed

lemma byDepth_level:
  assumes "(k, depthNodes) \<in> set (byDepth t nodes)"
  shows "depthNodes = filter (\<lambda>p. nodeDepth (dataOf (nodeAt p t)) = k) nodes"
proof -
  have "distinct (map fst (byDepth t nodes))"
    unfolding byDepth_def by (rule fold_addToDepth_distinct) simp
  with assms have "map_of (byDepth t nodes) k = Some depthNodes" by simp
  then show ?thesis
    unfolding byDepth_def fold_addToDepth_map_of by (simp split: if_splits)
qed

subsection \<open>The same for the sweep along x\<close>

lemma sweepX_step:
  "sweepX prev (cur # rest) t =
     sweepX cur rest
       (if nodeX (dataOf (nodeAt prev t)) + nodeWidth (dataOf (nodeAt prev t)) + 14
             - nodeX (dataOf (nodeAt cur t)) > 0
        then updAt cur (pushX (nodeX (dataOf (nodeAt prev t)) + nodeWidth (dataOf (nodeAt prev t)) + 14
             - nodeX (dataOf (nodeAt cur t)))) t
        else t)"
  by (simp add: Let_def)

lemma sweepX_untouched:
  "length q = m \<Longrightarrow> \<forall>p \<in> set rest. length p = m \<Longrightarrow> q \<notin> set rest \<Longrightarrow>
   nodeAt q (sweepX prev rest t) = nodeAt q t"
proof (induction rest arbitrary: prev t)
  case Nil
  show ?case by simp
next
  case (Cons cur rest)
  from Cons.prems have neq: "cur \<noteq> q" and len: "length cur = length q" by auto
  have "nodeAt q (sweepX prev (cur # rest) t) =
        nodeAt q (if nodeX (dataOf (nodeAt prev t)) + nodeWidth (dataOf (nodeAt prev t)) + 14
             - nodeX (dataOf (nodeAt cur t)) > 0
        then updAt cur (pushX (nodeX (dataOf (nodeAt prev t)) + nodeWidth (dataOf (nodeAt prev t)) + 14
             - nodeX (dataOf (nodeAt cur t)))) t
        else t)"
    unfolding sweepX_step using Cons.prems by (intro Cons.IH) auto
  also have "\<dots> = nodeAt q t"
    using nodeAt_updAt_other [OF len neq] by simp
  finally show ?case .
qed

lemma sweepX_chain:
  assumes "distinct (prev # rest)"
    and "\<forall>p \<in> set (prev # rest). length p = m \<and> validPath p t"
  shows "chainX (sweepX prev rest t) (prev # rest)"
  using assms
proof (induction rest arbitrary: prev t)
  case Nil
  show ?case by simp
next
  case (Cons cur rest)
  define overlap where "overlap = nodeX (dataOf (nodeAt prev t)) + nodeWidth (dataOf (nodeAt prev t)) + 14
             - nodeX (dataOf (nodeAt cur t))"
  define t1 where "t1 = (if overlap > 0 then updAt cur (pushX overlap) t else t)"
  have step: "sweepX prev (cur # rest) t = sweepX cur rest t1"
    unfolding sweepX_step t1_def overlap_def ..
  from Cons.prems have lens: "length prev = m" "length cur = m" "\<forall>p \<in> set rest. length p = m"
    and neq: "cur \<noteq> prev" and nin: "prev \<notin> set rest" "cur \<notin> set rest"
    and vcur: "validPath cur t" and dist: "distinct (cur # rest)"
    by auto
  have rel: "relTree pushedX t t1"
  proof (cases "overlap > 0")
    case True
    then have "\<And>n. relTree pushedX n (pushX overlap n)" by (simp add: relTree_pushX)
    then have "relTree pushedX t (updAt cur (pushX overlap) t)"
      by (intro relTree_updAt pushedX_refl)
    with True show ?thesis by (simp add: t1_def)
  next
    case False
    then show ?thesis by (simp add: t1_def relTree_refl pushedX_refl)
  qed
  have valid1: "\<forall>p \<in> set (cur # rest). length p = m \<and> validPath p t1"
    using Cons.prems(2) relTree_validPath [OF rel] by auto
  have IH: "chainX (sweepX cur rest t1) (cur # rest)"
    using dist valid1 by (rule Cons.IH)
  have prev1: "nodeAt prev t1 = nodeAt prev t"
    using nodeAt_updAt_other [of cur prev] lens neq by (simp add: t1_def)
  have cur1: "nodeX (dataOf (nodeAt cur t1))
                \<ge> nodeX (dataOf (nodeAt prev t)) + nodeWidth (dataOf (nodeAt prev t)) + 14"
  proof (cases "overlap > 0")
    case True
    then have "nodeAt cur t1 = pushX overlap (nodeAt cur t)"
      using vcur by (simp add: t1_def nodeAt_updAt_same)
    then show ?thesis by (simp add: pushX_translate translate_data overlap_def)
  next
    case False
    then show ?thesis by (simp add: t1_def overlap_def)
  qed
  have prevF: "nodeAt prev (sweepX cur rest t1) = nodeAt prev t1"
    using lens nin by (intro sweepX_untouched [where m = m]) auto
  have curF: "nodeAt cur (sweepX cur rest t1) = nodeAt cur t1"
    using lens nin by (intro sweepX_untouched [where m = m]) auto
  show ?case
    unfolding step using IH cur1 by (simp add: prevF curF prev1)
qed

lemma chainX_strict:
  "chainX t ps \<Longrightarrow> \<forall>p \<in> set ps. 0 \<le> nodeWidth (dataOf (nodeAt p t)) \<Longrightarrow>
   sorted_wrt (\<lambda>p q. nodeX (dataOf (nodeAt p t)) < nodeX (dataOf (nodeAt q t))) ps"
proof (induction t ps rule: chainX.induct)
  case (1 t p q ps)
  then have IH: "sorted_wrt (\<lambda>p q. nodeX (dataOf (nodeAt p t)) < nodeX (dataOf (nodeAt q t))) (q # ps)"
    by simp
  from 1 have pq: "nodeX (dataOf (nodeAt p t)) < nodeX (dataOf (nodeAt q t))" by simp
  with IH have "\<forall>r \<in> set (q # ps). nodeX (dataOf (nodeAt p t)) < nodeX (dataOf (nodeAt r t))"
    by auto
  with IH show ?case by simp
qed simp_all

lemma resolveLevelX_order:
  assumes wf: "wfDepth t"
    and h: "\<forall>n \<in> set (collectNodes t). 0 \<le> nodeWidth (dataOf n)"
  shows "levelOrder nodeX (resolveLevelX (levelPaths t k) t) k = levelOrder nodeX t k"
proof (cases "levelOrder nodeX t k")
  case Nil
  then show ?thesis by (simp add: resolveLevelX_def levelOrder_def)
next
  case (Cons first rest)
  define S where "S = first # rest"
  define t' where "t' = sweepX first rest t"
  have S: "S = sort_key (\<lambda>p. nodeX (dataOf (nodeAt p t))) (levelPaths t k)"
    using Cons by (simp add: S_def levelOrder_def)
  have res: "resolveLevelX (levelPaths t k) t = t'"
    using Cons by (simp add: resolveLevelX_def levelOrder_def t'_def)
  have setS: "set S = set (levelPaths t k)" by (simp add: S)
  have dL: "distinct (levelPaths t k)" by (simp add: levelPaths_def collectPaths_distinct)
  then have dS: "distinct S" by (simp add: S)
  have props: "\<forall>p \<in> set S. length p = k - nodeDepth (dataOf t) \<and> validPath p t"
    using levelPaths_props [OF wf] setS by blast
  have chain: "chainX t' S"
    unfolding t'_def S_def using dS props by (intro sweepX_chain [where m = "k - nodeDepth (dataOf t)"]) (simp_all add: S_def)
  have rel: "relTree pushedX t t'" unfolding t'_def by (rule sweepX_frame)
  have heights: "\<forall>p \<in> set S. 0 \<le> nodeWidth (dataOf (nodeAt p t'))"
  proof
    fix p assume p: "p \<in> set S"
    with setS have pl: "p \<in> set (levelPaths t k)" by simp
    have "nodeAt p t \<in> set (collectNodes t)"
      by (rule nodeAt_in_collectNodes) (rule levelPaths_props(1) [OF wf pl])
    with h have "0 \<le> nodeWidth (dataOf (nodeAt p t))" by blast
    moreover have "pushedX (dataOf (nodeAt p t)) (dataOf (nodeAt p t'))"
      by (rule relTree_data [OF relTree_nodeAt [OF rel levelPaths_props(2) [OF wf pl]]])
    ultimately show "0 \<le> nodeWidth (dataOf (nodeAt p t'))"
      using pushedX_fields by metis
  qed
  have strict: "sorted_wrt (\<lambda>p q. nodeX (dataOf (nodeAt p t')) < nodeX (dataOf (nodeAt q t'))) S"
    using chain heights by (rule chainX_strict)
  have lev: "levelPaths t' k = levelPaths t k"
    using rel pushedX_fields by (intro levelPaths_rel [where R = pushedX]) auto
  have "sort_key (\<lambda>p. nodeX (dataOf (nodeAt p t'))) (levelPaths t k) = S"
    using strict setS dL by (rule sort_key_unique)
  then show ?thesis by (simp add: res levelOrder_def lev S)
qed

text \<open>
  In a tree with consistent depths and non-negative node sizes, every depth level that
  \<^verbatim>\<open>byDepth\<close> forms is the list of the nodes of that depth, and the sweep of the
  level (along \<open>y\<close>, or along \<open>x\<close> in the vertical branch) leaves the order of the
  level's nodes, sorted by that coordinate, as it was when the sweep started.
\<close>

lemma level_sweep_keeps_order:
  assumes "wfDepth t"
    and "\<forall>n \<in> set (collectNodes t). 0 \<le> nodeWidth (dataOf n) \<and> 0 \<le> nodeHeight (dataOf n)"
    and "(k, depthNodes) \<in> set (byDepth t (collectPaths t))"
  shows "depthNodes = levelPaths t k
       \<and> levelOrder nodeY (resolveLevelY depthNodes t) k = levelOrder nodeY t k
       \<and> levelOrder nodeX (resolveLevelX depthNodes t) k = levelOrder nodeX t k"
proof -
  have L: "depthNodes = levelPaths t k"
    using byDepth_level [OF assms(3)] by (simp add: levelPaths_def)
  have "levelOrder nodeY (resolveLevelY (levelPaths t k) t) k = levelOrder nodeY t k"
    using assms(1,2) by (intro resolveLevelY_order) auto
  moreover have "levelOrder nodeX (resolveLevelX (levelPaths t k) t) k = levelOrder nodeX t k"
    using assms(1,2) by (intro resolveLevelX_order) auto
  ultimately show ?thesis using L by simp
qed

lemma crossLaid_tree:
  "crossLaid =
     LayoutNode \<lparr> nodeId = ''root'', nodeSrc = crossSample, nodeX = - 50, nodeY = - 20,
                  nodeWidth = 100, nodeHeight = 40, nodeDepth = 0, nodeAngle = None \<rparr>
       [LayoutNode \<lparr> nodeId = ''a'', nodeSrc = MindMapNode ''a'' ''A'' None None [leaf ''a1'', leaf ''a2''],
                     nodeX = 120, nodeY = - 20, nodeWidth = 100, nodeHeight = 40, nodeDepth = 1,
                     nodeAngle = None \<rparr>
          [LayoutNode \<lparr> nodeId = ''a1'', nodeSrc = leaf ''a1'', nodeX = 260, nodeY = - 61,
                        nodeWidth = 100, nodeHeight = 40, nodeDepth = 2, nodeAngle = None \<rparr> [],
           LayoutNode \<lparr> nodeId = ''a2'', nodeSrc = leaf ''a2'', nodeX = 260, nodeY = 21,
                        nodeWidth = 100, nodeHeight = 40, nodeDepth = 2, nodeAngle = None \<rparr> []],
        LayoutNode \<lparr> nodeId = ''b'', nodeSrc = MindMapNode ''b'' ''B'' None None [leaf ''b1''],
                     nodeX = - 220, nodeY = - 20, nodeWidth = 100, nodeHeight = 40, nodeDepth = 1,
                     nodeAngle = None \<rparr>
          [LayoutNode \<lparr> nodeId = ''b1'', nodeSrc = leaf ''b1'', nodeX = - 360, nodeY = - 20,
                        nodeWidth = 100, nodeHeight = 40, nodeDepth = 2, nodeAngle = None \<rparr> []]]"
  by (simp add: crossLaid_def crossSample_def leaf_def withLayout_def defaultConfig_def fixedMeasure_def
        applyLayout_def layoutTree_def splitChildren_def bestSplitOf_def calcNodeSize_def fontSizeFor_def Let_def)

text \<open>
  C2 as stated fails. In the tree layout of the default configuration, the root's two
  children \<open>a\<close> (right side) and \<open>b\<close> (left side) start at the same \<open>y\<close>; the sweep
  of depth 1 pushes \<open>b\<close> and its child \<open>b1\<close> down, past \<open>a2\<close>. Sorted by \<open>y\<close>, depth 2
  is \<open>a1, b1, a2\<close> before collision resolution and \<open>a1, a2, b1\<close> after it.
\<close>

theorem level_order_counterexample:
  "levelOrder nodeY crossLaid 2 = [[0, 0], [1, 0], [0, 1]]
   \<and> levelOrder nodeY (resolveCollisions (collectPaths crossLaid) Tree crossLaid) 2 = [[0, 0], [0, 1], [1, 0]]
   \<and> map (\<lambda>p. nodeId (dataOf (nodeAt p crossLaid))) [[0, 0], [1, 0], [0, 1]] = [''a1'', ''b1'', ''a2'']
   \<and> levelOrder nodeY (resolveCollisions (collectPaths crossLaid) Tree crossLaid) 2
        \<noteq> levelOrder nodeY crossLaid 2"
proof -
  have before: "levelOrder nodeY crossLaid 2 = [[0, 0], [1, 0], [0, 1]]"
    by (simp add: crossLaid_tree levelOrder_def levelPaths_def)
  have after: "levelOrder nodeY (resolveCollisions (collectPaths crossLaid) Tree crossLaid) 2
                 = [[0, 0], [0, 1], [1, 0]]"
    by (simp add: crossLaid_tree levelOrder_def levelPaths_def resolveCollisions_def byDepth_def
          resolveLevelY_def pushY_def)
  have ids: "map (\<lambda>p. nodeId (dataOf (nodeAt p crossLaid))) [[0, 0], [1, 0], [0, 1]] = [''a1'', ''b1'', ''a2'']"
    by (simp add: crossLaid_tree)
  from before after ids show ?thesis by simp
qed

section \<open>Horizontal left is the mirror image of horizontal right\<close>

lemma fold_updAt_child:
  "k = length pre \<Longrightarrow>
   fold (\<lambda>p t. updAt p g t) (map ((#) k) qs) (LayoutNode d (pre @ c # post))
     = LayoutNode d (pre @ fold (\<lambda>p t. updAt p g t) qs c # post)"
  by (induction qs arbitrary: c) simp_all

lemma fold_updAt_children:
  assumes "\<And>c. c \<in> set cs \<Longrightarrow> fold (\<lambda>p t. updAt p g t) (collectPaths c) c = M c"
  shows "k = length pre \<Longrightarrow>
         fold (\<lambda>p t. updAt p g t) (collectPathsFrom k cs) (LayoutNode d (pre @ cs))
           = LayoutNode d (pre @ map M cs)"
  using assms
proof (induction cs arbitrary: k pre)
  case Nil
  show ?case by simp
next
  case (Cons c cs)
  have "fold (\<lambda>p t. updAt p g t) (collectPathsFrom k (c # cs)) (LayoutNode d (pre @ c # cs))
        = fold (\<lambda>p t. updAt p g t) (collectPathsFrom (Suc k) cs)
            (LayoutNode d (pre @ fold (\<lambda>p t. updAt p g t) (collectPaths c) c # cs))"
    using Cons.prems(1) by (simp add: fold_updAt_child)
  also have "\<dots> = fold (\<lambda>p t. updAt p g t) (collectPathsFrom (Suc k) cs)
            (LayoutNode d ((pre @ [M c]) @ cs))"
    using Cons.prems(2) by simp
  also have "\<dots> = LayoutNode d ((pre @ [M c]) @ map M cs)"
    using Cons.prems by (intro Cons.IH) simp_all
  finally show ?case by simp
qed

lemma mirror_all_nodes:
  "fold (\<lambda>p t. updAt p mirrorX t) (collectPaths n) n = mirrorTree n"
proof (induction n)
  case (LayoutNode d cs)
  have "fold (\<lambda>p t. updAt p mirrorX t) (collectPathsFrom 0 cs)
          (LayoutNode (d\<lparr> nodeX := - nodeX d - nodeWidth d \<rparr>) ([] @ cs))
        = LayoutNode (d\<lparr> nodeX := - nodeX d - nodeWidth d \<rparr>) ([] @ map mirrorTree cs)"
    using LayoutNode.IH by (intro fold_updAt_children) simp_all
  moreover have "mirrorX (LayoutNode d cs) = LayoutNode (d\<lparr> nodeX := - nodeX d - nodeWidth d \<rparr>) cs"
    by (simp add: mirrorX_def)
  ultimately show ?case by simp
qed

lemma layoutHorizontalLeft_mirror:
  "layoutHorizontalLeft rt config = mirrorTree (layoutHorizontalRight rt config)"
  by (simp add: layoutHorizontalLeft_def Let_def mirror_all_nodes)

lemma mirrorTree_data:
  "dataOf (mirrorTree n) = (dataOf n)\<lparr> nodeX := - nodeX (dataOf n) - nodeWidth (dataOf n) \<rparr>"
  by (cases n) simp

lemma mirrorTree_children: "children (mirrorTree n) = map mirrorTree (children n)"
  by (cases n) simp

lemma mirrorTree_nodeAt:
  "validPath p t \<Longrightarrow> nodeAt p (mirrorTree t) = mirrorTree (nodeAt p t)"
  by (induction p arbitrary: t) (simp_all add: mirrorTree_children)

lemma mirrorTree_translate:
  "mirrorTree (translate 0 dy n) = translate 0 dy (mirrorTree n)"
  by (induction n) simp

lemma mirrorTree_updAt:
  assumes g: "\<And>n. mirrorTree (g n) = g (mirrorTree n)"
  shows "mirrorTree (updAt p g t) = updAt p g (mirrorTree t)"
proof (induction p arbitrary: t)
  case Nil
  show ?case by (simp add: g)
next
  case (Cons k p)
  obtain d cs where t: "t = LayoutNode d cs" by (cases t)
  show ?case
  proof (cases "k < length cs")
    case True
    then show ?thesis by (simp add: t map_update Cons.IH)
  next
    case False
    then have "cs[k := updAt p g (cs ! k)] = cs"
      and "(map mirrorTree cs)[k := updAt p g (map mirrorTree cs ! k)] = map mirrorTree cs"
      by (simp_all add: list_update_beyond)
    then show ?thesis by (simp add: t)
  qed
qed

lemma mirrorTree_valid: "validPath p (mirrorTree t) = validPath p t"
proof (induction p arbitrary: t)
  case Nil
  show ?case by simp
next
  case (Cons k p)
  show ?case
    by (cases "k < length (children t)") (simp_all add: mirrorTree_children Cons.IH)
qed

lemma sweepY_mirror:
  "\<forall>p \<in> set (prev # rest). validPath p t \<Longrightarrow>
   sweepY prev rest (mirrorTree t) = mirrorTree (sweepY prev rest t)"
proof (induction rest arbitrary: prev t)
  case Nil
  show ?case by simp
next
  case (Cons cur rest)
  define overlap where "overlap = nodeY (dataOf (nodeAt prev t)) + nodeHeight (dataOf (nodeAt prev t)) + 14
             - nodeY (dataOf (nodeAt cur t))"
  define t1 where "t1 = (if overlap > 0 then updAt cur (pushY overlap) t else t)"
  from Cons.prems have v: "validPath prev t" "validPath cur t" by simp_all
  have ov: "nodeY (dataOf (nodeAt prev (mirrorTree t))) + nodeHeight (dataOf (nodeAt prev (mirrorTree t))) + 14
             - nodeY (dataOf (nodeAt cur (mirrorTree t))) = overlap"
    using v by (simp add: mirrorTree_nodeAt mirrorTree_data overlap_def)
  have m1: "(if overlap > 0 then updAt cur (pushY overlap) (mirrorTree t) else mirrorTree t) = mirrorTree t1"
    by (simp add: t1_def mirrorTree_updAt pushY_translate mirrorTree_translate)
  have rel: "relTree pushedY t t1"
  proof (cases "overlap > 0")
    case True
    then have "\<And>n. relTree pushedY n (pushY overlap n)" by (simp add: relTree_pushY)
    then have "relTree pushedY t (updAt cur (pushY overlap) t)"
      by (intro relTree_updAt pushedY_refl)
    with True show ?thesis by (simp add: t1_def)
  next
    case False
    then show ?thesis by (simp add: t1_def relTree_refl pushedY_refl)
  qed
  have valid1: "\<forall>p \<in> set (cur # rest). validPath p t1"
    using Cons.prems relTree_validPath [OF rel] by auto
  have "sweepY prev (cur # rest) (mirrorTree t) = sweepY cur rest (mirrorTree t1)"
    unfolding sweepY_step ov m1 ..
  also have "\<dots> = mirrorTree (sweepY cur rest t1)"
    using valid1 by (rule Cons.IH)
  also have "sweepY cur rest t1 = sweepY prev (cur # rest) t"
    unfolding sweepY_step t1_def overlap_def ..
  finally show ?case .
qed

lemma insort_key_agree:
  "f x = g x \<Longrightarrow> \<forall>y \<in> set xs. f y = g y \<Longrightarrow> insort_key f x xs = insort_key g x xs"
  by (induction xs) simp_all

lemma sort_key_agree:
  "\<forall>y \<in> set xs. f y = g y \<Longrightarrow> sort_key f xs = sort_key g xs"
proof (induction xs)
  case Nil
  show ?case by simp
next
  case (Cons x xs)
  then have "sort_key f xs = sort_key g xs" by simp
  moreover have "insort_key f x (sort_key g xs) = insort_key g x (sort_key g xs)"
    using Cons.prems by (intro insort_key_agree) simp_all
  ultimately show ?case by simp
qed

lemma resolveLevelY_mirror:
  assumes "\<forall>p \<in> set depthNodes. validPath p t"
  shows "resolveLevelY depthNodes (mirrorTree t) = mirrorTree (resolveLevelY depthNodes t)"
proof -
  have keys: "sort_key (\<lambda>p. nodeY (dataOf (nodeAt p (mirrorTree t)))) depthNodes
              = sort_key (\<lambda>p. nodeY (dataOf (nodeAt p t))) depthNodes"
    using assms by (intro sort_key_agree) (simp add: mirrorTree_nodeAt mirrorTree_data)
  show ?thesis
  proof (cases "sort_key (\<lambda>p. nodeY (dataOf (nodeAt p t))) depthNodes")
    case Nil
    then show ?thesis by (simp add: resolveLevelY_def keys)
  next
    case (Cons first rest)
    have "set (first # rest) = set depthNodes"
      using arg_cong [OF Cons, of set] by simp
    with assms have "\<forall>p \<in> set (first # rest). validPath p t" by blast
    from sweepY_mirror [OF this] Cons show ?thesis by (simp add: resolveLevelY_def keys)
  qed
qed

lemma fold_levelsY_mirror:
  "\<forall>(k, depthNodes) \<in> set levels. \<forall>p \<in> set depthNodes. validPath p t \<Longrightarrow>
   fold (\<lambda>(k, depthNodes) t. resolveLevelY depthNodes t) levels (mirrorTree t)
     = mirrorTree (fold (\<lambda>(k, depthNodes) t. resolveLevelY depthNodes t) levels t)"
proof (induction levels arbitrary: t)
  case Nil
  show ?case by simp
next
  case (Cons lv levels)
  obtain k depthNodes where lv: "lv = (k, depthNodes)" by (cases lv)
  from Cons.prems have v: "\<forall>p \<in> set depthNodes. validPath p t" by (simp add: lv)
  define t1 where "t1 = resolveLevelY depthNodes t"
  have rel: "relTree pushedY t t1" unfolding t1_def by (rule resolveLevelY_frame)
  have rest: "\<forall>(k, ps) \<in> set levels. \<forall>p \<in> set ps. validPath p t1"
    using Cons.prems relTree_validPath [OF rel] by auto
  have "fold (\<lambda>(k, depthNodes) t. resolveLevelY depthNodes t) (lv # levels) (mirrorTree t)
        = fold (\<lambda>(k, depthNodes) t. resolveLevelY depthNodes t) levels (mirrorTree t1)"
    by (simp add: lv resolveLevelY_mirror [OF v] t1_def)
  also have "\<dots> = mirrorTree (fold (\<lambda>(k, depthNodes) t. resolveLevelY depthNodes t) levels t1)"
    using rest by (rule Cons.IH)
  finally show ?case by (simp add: lv t1_def)
qed

lemma byDepth_mirror:
  "\<forall>p \<in> set nodes. validPath p t \<Longrightarrow> byDepth (mirrorTree t) nodes = byDepth t nodes"
  unfolding byDepth_def
  by (rule arg_cong [where f = "\<lambda>f. fold f nodes []"] fold_cong) (auto simp: mirrorTree_nodeAt mirrorTree_data)

lemma mirrorTree_collectPaths: "collectPaths (mirrorTree t) = collectPaths t"
proof -
  have "relTree (\<lambda>d d'. True) t (mirrorTree t)"
  proof (induction t)
    case (LayoutNode d cs)
    then show ?case by (simp add: list_all2_conv_all_nth)
  qed
  from relTree_collectPaths [OF this] show ?thesis by simp
qed

lemma resolveCollisions_mirror:
  assumes "lay \<noteq> Radial" "lay \<noteq> Vertical" "lay' \<noteq> Radial" "lay' \<noteq> Vertical"
  shows "resolveCollisions (collectPaths (mirrorTree t)) lay (mirrorTree t)
           = mirrorTree (resolveCollisions (collectPaths t) lay' t)"
proof -
  have valid: "\<forall>p \<in> set (collectPaths t). validPath p t"
    by (simp add: collectPaths_valid)
  have levels: "\<forall>(k, depthNodes) \<in> set (byDepth t (collectPaths t)). \<forall>p \<in> set depthNodes. validPath p t"
  proof (clarify)
    fix k depthNodes p
    assume "(k, depthNodes) \<in> set (byDepth t (collectPaths t))" and p: "p \<in> set depthNodes"
    from byDepth_level [OF this(1)] p have "p \<in> set (collectPaths t)" by simp
    then show "validPath p t" by (rule collectPaths_valid)
  qed
  show ?thesis
    using assms
    by (simp add: resolveCollisions_def mirrorTree_collectPaths byDepth_mirror [OF valid]
          fold_levelsY_mirror [OF levels])
qed

lemma buildLayoutTree_withLayout:
  "buildLayoutTree textOracle (withLayout lay config) src depth = buildLayoutTree textOracle config src depth"
proof (induction src arbitrary: depth)
  case (MindMapNode i t ic col cs)
  have "calcNodeSize textOracle (MindMapNode i t ic col cs) depth (withLayout lay config)
        = calcNodeSize textOracle (MindMapNode i t ic col cs) depth config"
    by (simp add: calcNodeSize_def fontSizeFor_def withLayout_def)
  moreover have "maxDepth (structureCfg (withLayout lay config)) = maxDepth (structureCfg config)"
    by (simp add: withLayout_def)
  ultimately show ?case using MindMapNode.IH by simp
qed

text \<open>
  C8. The horizontal-left layout is the horizontal-right layout with every node's \<open>x\<close>
  replaced by \<open>-x - width\<close>; \<open>y\<close>, width, height, depth, id and the order of the
  children are those of the right variant. This holds for the layout function and for
  the laid-out tree after collision resolution.
\<close>

theorem horizontal_left_mirrors_right:
  "layoutHorizontalLeft rt config = mirrorTree (layoutHorizontalRight rt config)
   \<and> layoutRoot textOracle src (withLayout HorizontalLeft config)
       = mirrorTree (layoutRoot textOracle src (withLayout HorizontalRight config))"
proof -
  define built where "built = buildLayoutTree textOracle config src 0"
  define right where "right = layoutHorizontalRight built config"
  have lay: "layout (structureCfg (withLayout lay config)) = lay" for lay
    by (simp add: withLayout_def)
  have r: "layoutHorizontalRight built (withLayout lay config) = right" for lay
    by (simp add: layoutHorizontalRight_def right_def withLayout_def)
  have l: "layoutHorizontalLeft built (withLayout lay config) = mirrorTree right" for lay
    by (simp add: layoutHorizontalLeft_mirror r)
  have "layoutRoot textOracle src (withLayout HorizontalLeft config)
        = resolveCollisions (collectPaths (mirrorTree right)) HorizontalLeft (mirrorTree right)"
    by (simp add: layoutRoot_def Let_def applyLayout_def buildLayoutTree_withLayout built_def [symmetric] l lay)
  also have "\<dots> = mirrorTree (resolveCollisions (collectPaths right) HorizontalRight right)"
    by (rule resolveCollisions_mirror) simp_all
  also have "resolveCollisions (collectPaths right) HorizontalRight right
             = layoutRoot textOracle src (withLayout HorizontalRight config)"
    by (simp add: layoutRoot_def Let_def applyLayout_def buildLayoutTree_withLayout built_def [symmetric] r lay)
  finally show ?thesis by (simp add: layoutHorizontalLeft_mirror)
qed

theorem horizontal_left_mirrors_right_witness:
  "map (\<lambda>n. (nodeId (dataOf n), nodeX (dataOf n), nodeY (dataOf n), nodeWidth (dataOf n)))
       (collectNodes (layoutRoot fixedMeasure twoLevelSample (withLayout HorizontalRight defaultConfig)))
     = [(''root'', 0, - 20, 100), (''a'', 140, - 59, 100), (''b'', 280, - 98, 100),
        (''c'', 280, - 20, 100), (''d'', 140, 58, 100)]
   \<and> map (\<lambda>n. (nodeId (dataOf n), nodeX (dataOf n), nodeY (dataOf n), nodeWidth (dataOf n)))
       (collectNodes (layoutRoot fixedMeasure twoLevelSample (withLayout HorizontalLeft defaultConfig)))
     = [(''root'', - 100, - 20, 100), (''a'', - 240, - 59, 100), (''b'', - 380, - 98, 100),
        (''c'', - 380, - 20, 100), (''d'', - 240, 58, 100)]"
proof -
  have right: "layoutRoot fixedMeasure twoLevelSample (withLayout HorizontalRight defaultConfig) =
     LayoutNode \<lparr> nodeId = ''root'', nodeSrc = twoLevelSample, nodeX = 0, nodeY = - 20,
                  nodeWidth = 100, nodeHeight = 40, nodeDepth = 0, nodeAngle = None \<rparr>
       [LayoutNode \<lparr> nodeId = ''a'', nodeSrc = MindMapNode ''a'' ''A'' None None [leaf ''b'', leaf ''c''],
                     nodeX = 140, nodeY = - 59, nodeWidth = 100, nodeHeight = 40, nodeDepth = 1,
                     nodeAngle = None \<rparr>
          [LayoutNode \<lparr> nodeId = ''b'', nodeSrc = leaf ''b'', nodeX = 280, nodeY = - 98,
                        nodeWidth = 100, nodeHeight = 40, nodeDepth = 2, nodeAngle = None \<rparr> [],
           LayoutNode \<lparr> nodeId = ''c'', nodeSrc = leaf ''c'', nodeX = 280, nodeY = - 20,
                        nodeWidth = 100, nodeHeight = 40, nodeDepth = 2, nodeAngle = None \<rparr> []],
        LayoutNode \<lparr> nodeId = ''d'', nodeSrc = leaf ''d'', nodeX = 140, nodeY = 58,
                     nodeWidth = 100, nodeHeight = 40, nodeDepth = 1, nodeAngle = None \<rparr> []]"
    by (simp add: layoutRoot_def twoLevelSample_def leaf_def withLayout_def defaultConfig_def fixedMeasure_def
          applyLayout_def layoutHorizontalRight_def calcNodeSize_def fontSizeFor_def Let_def
          resolveCollisions_def byDepth_def resolveLevelY_def)
  from horizontal_left_mirrors_right [where textOracle = fixedMeasure and src = twoLevelSample and config = defaultConfig]
  have left: "layoutRoot fixedMeasure twoLevelSample (withLayout HorizontalLeft defaultConfig)
       = mirrorTree (layoutRoot fixedMeasure twoLevelSample (withLayout HorizontalRight defaultConfig))"
    by blast
  show ?thesis
    unfolding left unfolding right by simp
qed

section \<open>Radial layout: the floor of a sector\<close>

lemma radialTree_tree:
  "radialTree =
     LayoutNode \<lparr> nodeId = ''root'', nodeSrc = unbalancedSample, nodeX = 0, nodeY = 0,
                  nodeWidth = 100, nodeHeight = 40, nodeDepth = 0, nodeAngle = None \<rparr>
       [LayoutNode \<lparr> nodeId = ''a'',
                     nodeSrc = MindMapNode ''a'' ''A'' None None [leaf ''a1'', leaf ''a2'', leaf ''a3''],
                     nodeX = 0, nodeY = 0, nodeWidth = 100, nodeHeight = 40, nodeDepth = 1,
                     nodeAngle = None \<rparr>
          [LayoutNode \<lparr> nodeId = ''a1'', nodeSrc = leaf ''a1'', nodeX = 0, nodeY = 0,
                        nodeWidth = 100, nodeHeight = 40, nodeDepth = 2, nodeAngle = None \<rparr> [],
           LayoutNode \<lparr> nodeId = ''a2'', nodeSrc = leaf ''a2'', nodeX = 0, nodeY = 0,
                        nodeWidth = 100, nodeHeight = 40, nodeDepth = 2, nodeAngle = None \<rparr> [],
           LayoutNode \<lparr> nodeId = ''a3'', nodeSrc = leaf ''a3'', nodeX = 0, nodeY = 0,
                        nodeWidth = 100, nodeHeight = 40, nodeDepth = 2, nodeAngle = None \<rparr> []],
        LayoutNode \<lparr> nodeId = ''b'', nodeSrc = leaf ''b'', nodeX = 0, nodeY = 0,
                     nodeWidth = 100, nodeHeight = 40, nodeDepth = 1, nodeAngle = None \<rparr> [],
        LayoutNode \<lparr> nodeId = ''c'', nodeSrc = leaf ''c'', nodeX = 0, nodeY = 0,
                     nodeWidth = 100, nodeHeight = 40, nodeDepth = 1, nodeAngle = None \<rparr> []]"
  by (simp add: radialTree_def unbalancedSample_def leaf_def defaultConfig_def fixedMeasure_def
        calcNodeSize_def fontSizeFor_def)

text \<open>
  C6 as stated fails for a node with children. With the default spacing the ring base is
  180; node \<open>a\<close> at depth 1 is 100 wide and has three leaves at depth 2 (radius 400),
  each with floor \<open>120 / 400\<close>. The claimed floor of \<open>a\<close> is \<open>120 / 180\<close>, the floor
  the allocation uses is \<open>9 / 10\<close>.
\<close>

theorem radial_floor_counterexample:
  "nodeId (dataOf (children radialTree ! 0)) = ''a''
   \<and> radiusForDepth 180 (nodeDepth (dataOf (children radialTree ! 0))) = 180
   \<and> claimedFloor 20 (dataOf (children radialTree ! 0)) 180 = 2 / 3
   \<and> minSubtreeAngle 180 (children radialTree ! 0) = 9 / 10"
  by (simp add: radialTree_tree claimedFloor_def radiusForDepth_def nodeArc_def)

text \<open>
  C6 (as amended). For a node at a positive radius \<open>r\<close> with a non-negative side, the
  floor used in the sector allocation is the larger of
  \<open>max(node dimension + 20, 0.3) / r\<close> and the sum of the floors of the node's children;
  for a leaf it is \<open>max(node dimension + 20, 0.3) / r\<close>, and it is never below that
  value.
\<close>

theorem radial_floor:
  assumes r: "0 < radiusForDepth baseRing (nodeDepth (dataOf n))"
    and size: "0 \<le> nodeWidth (dataOf n) \<or> 0 \<le> nodeHeight (dataOf n)"
  shows "minSubtreeAngle baseRing n
           = max (claimedFloor 20 (dataOf n) (radiusForDepth baseRing (nodeDepth (dataOf n))))
                 (sum_list (map (minSubtreeAngle baseRing) (children n)))
       \<and> (children n = [] \<longrightarrow>
            minSubtreeAngle baseRing n
              = claimedFloor 20 (dataOf n) (radiusForDepth baseRing (nodeDepth (dataOf n))))
       \<and> claimedFloor 20 (dataOf n) (radiusForDepth baseRing (nodeDepth (dataOf n)))
            \<le> minSubtreeAngle baseRing n"
proof -
  obtain d cs where n: "n = LayoutNode d cs" by (cases n)
  define rad where "rad = radiusForDepth baseRing (nodeDepth d)"
  have rad: "0 < rad" using r by (simp add: n rad_def)
  have dim: "0 \<le> max (nodeWidth d) (nodeHeight d)" using size by (auto simp: n)
  then have "max (max (nodeWidth d) (nodeHeight d) + 20) 0.3 = max (nodeWidth d) (nodeHeight d) + 20"
    by simp
  then have arc: "nodeArc baseRing d = claimedFloor 20 d rad"
    using rad by (simp add: nodeArc_def claimedFloor_def rad_def Let_def)
  have pos: "0 < claimedFloor 20 d rad"
    using rad dim by (simp add: claimedFloor_def)
  show ?thesis
  proof (cases "cs = []")
    case True
    then show ?thesis using arc pos by (simp add: n rad_def)
  next
    case False
    then show ?thesis using arc by (simp add: n rad_def)
  qed
qed

theorem radial_floor_witness:
  "0 < radiusForDepth 180 (nodeDepth (dataOf (children radialTree ! 0)))
   \<and> 0 \<le> nodeWidth (dataOf (children radialTree ! 0))
   \<and> minSubtreeAngle 180 (children radialTree ! 0) = max (2 / 3) (3 / 10 + 3 / 10 + 3 / 10)
   \<and> minSubtreeAngle 180 (children radialTree ! 1) = 2 / 3
   \<and> claimedFloor 20 (dataOf (children radialTree ! 1)) 180 = 2 / 3"
proof -
  have r: "0 < radiusForDepth 180 (nodeDepth (dataOf (children radialTree ! 0)))"
    by (simp add: radialTree_tree radiusForDepth_def)
  have w: "0 \<le> nodeWidth (dataOf (children radialTree ! 0)) \<or> 0 \<le> nodeHeight (dataOf (children radialTree ! 0))"
    by (simp add: radialTree_tree)
  have kids: "map (minSubtreeAngle 180) (children (children radialTree ! 0)) = [3 / 10, 3 / 10, 3 / 10]"
    by (simp add: radialTree_tree radiusForDepth_def nodeArc_def)
  have c: "claimedFloor 20 (dataOf (children radialTree ! 0)) (radiusForDepth 180 (nodeDepth (dataOf (children radialTree ! 0)))) = 2 / 3"
    by (simp add: radialTree_tree radiusForDepth_def claimedFloor_def)
  from radial_floor [OF r w]
  have "minSubtreeAngle 180 (children radialTree ! 0)
          = max (claimedFloor 20 (dataOf (children radialTree ! 0)) (radiusForDepth 180 (nodeDepth (dataOf (children radialTree ! 0)))))
                (sum_list (map (minSubtreeAngle 180) (children (children radialTree ! 0))))"
    by blast
  then have a: "minSubtreeAngle 180 (children radialTree ! 0) = max (2 / 3) (3 / 10 + 3 / 10 + 3 / 10)"
    unfolding kids c by simp
  have b: "minSubtreeAngle 180 (children radialTree ! 1) = 2 / 3"
          "claimedFloor 20 (dataOf (children radialTree ! 1)) 180 = 2 / 3"
    by (simp_all add: radialTree_tree radiusForDepth_def nodeArc_def claimedFloor_def)
  from r w a b show ?thesis by (simp add: radialTree_tree)
qed

section \<open>Radial layout: sectors are nested and disjoint\<close>







subsection \<open>The floor and the allocation\<close>







subsection \<open>The sectors of the children\<close>












section \<open>Edge routing: the gap at each end\<close>

lemma anchorDirection_unit: "unitAxis (anchorDirection a)"
  by (cases a) (simp_all add: anchorDirection_def unitAxis_def)

lemma rectBoundaryPoint_Some:
  "\<exists>p v. rectBoundaryPoint node tx ty ox oy = Some (p, v) \<and> unitAxis v"
proof -
  define cx where "cx = nodeX node + ox + nodeWidth node / 2"
  define cy where "cy = nodeY node + oy + nodeHeight node / 2"
  define dirX where "dirX = tx - cx"
  define dirY where "dirY = ty - cy"
  define st4 where "st4 =
       hitStep (dirY < 0) (- (nodeHeight node / 2) / dirY) AnchorTop
        (hitStep (dirY > 0) ((nodeHeight node / 2) / dirY) AnchorBottom
          (hitStep (dirX < 0) (- (nodeWidth node / 2) / dirX) AnchorLeft
            (hitStep (dirX > 0) ((nodeWidth node / 2) / dirX) AnchorRight (None, AnchorRight))))"
  have eq: "rectBoundaryPoint node tx ty ox oy =
      (if \<bar>dirX\<bar> < 0.01 \<and> \<bar>dirY\<bar> < 0.01 then Some ((cx, nodeY node + oy), (0, - 1))
       else case fst st4 of
              None \<Rightarrow> None
            | Some t \<Rightarrow> Some ((cx + dirX * t, cy + dirY * t), anchorDirection (snd st4)))"
    unfolding rectBoundaryPoint_def Let_def st4_def dirX_def dirY_def cx_def cy_def ..
  show ?thesis
  proof (cases "\<bar>dirX\<bar> < 0.01 \<and> \<bar>dirY\<bar> < 0.01")
    case True
    have "unitAxis (0, - 1)" by (simp add: unitAxis_def)
    moreover from True have "rectBoundaryPoint node tx ty ox oy = Some ((cx, nodeY node + oy), (0, - 1))"
      unfolding eq by (rule if_P)
    ultimately show ?thesis by blast
  next
    case False
    then have nz: "dirX > 0 \<or> dirX < 0 \<or> dirY > 0 \<or> dirY < 0" by auto
    have mono: "\<And>c tt e st. fst st \<noteq> None \<Longrightarrow> fst (hitStep c tt e st) \<noteq> None"
      by (simp add: hitStep_def)
    have fire: "\<And>c tt e st. c \<Longrightarrow> fst (hitStep c tt e st) \<noteq> None"
      by (auto simp: hitStep_def split: option.splits)
    have "fst st4 \<noteq> None"
      unfolding st4_def using nz mono fire by metis
    then obtain t where t: "fst st4 = Some t" by auto
    from False have "rectBoundaryPoint node tx ty ox oy
            = (case fst st4 of
                 None \<Rightarrow> None
               | Some t \<Rightarrow> Some ((cx + dirX * t, cy + dirY * t), anchorDirection (snd st4)))"
      unfolding eq by (rule if_not_P)
    then have "rectBoundaryPoint node tx ty ox oy
            = Some ((cx + dirX * t, cy + dirY * t), anchorDirection (snd st4))"
      by (simp only: t option.case)
    then show ?thesis using anchorDirection_unit by blast
  qed
qed

lemma edgeAnchors_Some:
  "\<exists>p1 d1 p2 d2. edgeAnchors edge config ox oy = Some ((p1, d1), (p2, d2)) \<and> unitAxis d1 \<and> unitAxis d2"
proof (cases "layout (structureCfg config) = Radial")
  case True
  define src where "src = dataOf (source edge)"
  define tgt where "tgt = dataOf (target edge)"
  obtain p1 d1 where a: "rectBoundaryPoint src (nodeX tgt + ox + nodeWidth tgt / 2)
        (nodeY tgt + oy + nodeHeight tgt / 2) ox oy = Some (p1, d1)" and u1: "unitAxis d1"
    using rectBoundaryPoint_Some by blast
  obtain p2 d2 where b: "rectBoundaryPoint tgt (nodeX src + ox + nodeWidth src / 2)
        (nodeY src + oy + nodeHeight src / 2) ox oy = Some (p2, d2)" and u2: "unitAxis d2"
    using rectBoundaryPoint_Some by blast
  have "edgeAnchors edge config ox oy = Some ((p1, d1), (p2, d2))"
    using True a b by (simp add: edgeAnchors_def Let_def src_def tgt_def)
  with u1 u2 show ?thesis by blast
next
  case False
  then show ?thesis
    by (simp add: edgeAnchors_def Let_def anchorDirection_unit)
qed

lemma unitAxis_sq: "unitAxis v \<Longrightarrow> (fst v * g)\<^sup>2 + (snd v * g)\<^sup>2 = g\<^sup>2"
  by (auto simp: unitAxis_def)

text \<open>
  C9. Every edge has its two anchors, each with a direction that is one of the four unit
  axis vectors, and the path ends at \<open>anchor + gap * direction\<close>: at distance \<open>gap\<close> from
  the anchor, where the gap of an end is \<open>markerSize + 3\<close> when that end has a marker and
  4 when it has none.
\<close>

theorem edge_gap:
  "\<exists>p1 d1 p2 d2 q1 q2.
      edgeAnchors edge config ox oy = Some ((p1, d1), (p2, d2))
    \<and> edgeEndpoints edge config ox oy = Some (q1, q2)
    \<and> unitAxis d1 \<and> unitAxis d2
    \<and> q1 = (fst p1 + fst d1 * startGap (linkCfg config), snd p1 + snd d1 * startGap (linkCfg config))
    \<and> q2 = (fst p2 + fst d2 * endGap (linkCfg config), snd p2 + snd d2 * endGap (linkCfg config))
    \<and> (fst q1 - fst p1)\<^sup>2 + (snd q1 - snd p1)\<^sup>2 = (startGap (linkCfg config))\<^sup>2
    \<and> (fst q2 - fst p2)\<^sup>2 + (snd q2 - snd p2)\<^sup>2 = (endGap (linkCfg config))\<^sup>2
    \<and> startGap (linkCfg config)
         = (if markerStart (linkCfg config) = NoMarker then 4 else markerSize (linkCfg config) + 3)
    \<and> endGap (linkCfg config)
         = (if markerEnd (linkCfg config) = NoMarker then 4 else markerSize (linkCfg config) + 3)"
proof -
  obtain p1 d1 p2 d2 where a: "edgeAnchors edge config ox oy = Some ((p1, d1), (p2, d2))"
    and u: "unitAxis d1" "unitAxis d2"
    using edgeAnchors_Some by blast
  define q1 where "q1 = (fst p1 + fst d1 * startGap (linkCfg config), snd p1 + snd d1 * startGap (linkCfg config))"
  define q2 where "q2 = (fst p2 + fst d2 * endGap (linkCfg config), snd p2 + snd d2 * endGap (linkCfg config))"
  have e: "edgeEndpoints edge config ox oy = Some (q1, q2)"
    by (simp add: edgeEndpoints_def a q1_def q2_def)
  have s1: "(fst q1 - fst p1)\<^sup>2 + (snd q1 - snd p1)\<^sup>2 = (startGap (linkCfg config))\<^sup>2"
    using unitAxis_sq [OF u(1)] by (simp add: q1_def)
  have s2: "(fst q2 - fst p2)\<^sup>2 + (snd q2 - snd p2)\<^sup>2 = (endGap (linkCfg config))\<^sup>2"
    using unitAxis_sq [OF u(2)] by (simp add: q2_def)
  have g: "startGap (linkCfg config)
         = (if markerStart (linkCfg config) = NoMarker then 4 else markerSize (linkCfg config) + 3)"
    "endGap (linkCfg config)
         = (if markerEnd (linkCfg config) = NoMarker then 4 else markerSize (linkCfg config) + 3)"
    by (simp_all add: startGap_def endGap_def)
  from a e u s1 s2 g q1_def q2_def show ?thesis by blast
qed

theorem edge_gap_witness:
  "edgeId sampleEdge = ''root->a''
   \<and> edgeAnchors sampleEdge (withLayout HorizontalRight defaultConfig) 40 138
       = Some (((140, 138), (1, 0)), ((180, 99), (- 1, 0)))
   \<and> edgeEndpoints sampleEdge (withLayout HorizontalRight defaultConfig) 40 138
       = Some ((144, 138), (169, 99))"
proof -
  have root: "layoutRoot fixedMeasure twoLevelSample (withLayout HorizontalRight defaultConfig) =
     LayoutNode \<lparr> nodeId = ''root'', nodeSrc = twoLevelSample, nodeX = 0, nodeY = - 20,
                  nodeWidth = 100, nodeHeight = 40, nodeDepth = 0, nodeAngle = None \<rparr>
       [LayoutNode \<lparr> nodeId = ''a'', nodeSrc = MindMapNode ''a'' ''A'' None None [leaf ''b'', leaf ''c''],
                     nodeX = 140, nodeY = - 59, nodeWidth = 100, nodeHeight = 40, nodeDepth = 1,
                     nodeAngle = None \<rparr>
          [LayoutNode \<lparr> nodeId = ''b'', nodeSrc = leaf ''b'', nodeX = 280, nodeY = - 98,
                        nodeWidth = 100, nodeHeight = 40, nodeDepth = 2, nodeAngle = None \<rparr> [],
           LayoutNode \<lparr> nodeId = ''c'', nodeSrc = leaf ''c'', nodeX = 280, nodeY = - 20,
                        nodeWidth = 100, nodeHeight = 40, nodeDepth = 2, nodeAngle = None \<rparr> []],
        LayoutNode \<lparr> nodeId = ''d'', nodeSrc = leaf ''d'', nodeX = 140, nodeY = 58,
                     nodeWidth = 100, nodeHeight = 40, nodeDepth = 1, nodeAngle = None \<rparr> []]"
    by (simp add: layoutRoot_def twoLevelSample_def leaf_def withLayout_def defaultConfig_def fixedMeasure_def
          applyLayout_def layoutHorizontalRight_def calcNodeSize_def fontSizeFor_def Let_def
          resolveCollisions_def byDepth_def resolveLevelY_def)
  have id: "edgeId sampleEdge = ''root->a''"
    by (simp add: sampleEdge_def root)
  have ends: "dataOf (source sampleEdge)
          = \<lparr> nodeId = ''root'', nodeSrc = twoLevelSample, nodeX = 0, nodeY = - 20,
                nodeWidth = 100, nodeHeight = 40, nodeDepth = 0, nodeAngle = None \<rparr>"
    "dataOf (target sampleEdge)
          = \<lparr> nodeId = ''a'', nodeSrc = MindMapNode ''a'' ''A'' None None [leaf ''b'', leaf ''c''],
                nodeX = 140, nodeY = - 59, nodeWidth = 100, nodeHeight = 40, nodeDepth = 1,
                nodeAngle = None \<rparr>"
    by (simp_all add: sampleEdge_def root)
  have lay: "layout (structureCfg (withLayout HorizontalRight defaultConfig)) = HorizontalRight"
    by (simp add: withLayout_def)
  have anchors: "edgeAnchors sampleEdge (withLayout HorizontalRight defaultConfig) 40 138
       = Some (((140, 138), (1, 0)), ((180, 99), (- 1, 0)))"
    by (simp add: ends lay edgeAnchors_def chooseFixedAnchors_def getFixedAnchorPoint_def
          anchorDirection_def Let_def)
  have gaps: "startGap (linkCfg (withLayout HorizontalRight defaultConfig)) = 4"
             "endGap (linkCfg (withLayout HorizontalRight defaultConfig)) = 11"
    by (simp_all add: startGap_def endGap_def withLayout_def defaultConfig_def)
  from edge_gap [of sampleEdge "withLayout HorizontalRight defaultConfig" 40 138]
  obtain q1 q2 where "edgeEndpoints sampleEdge (withLayout HorizontalRight defaultConfig) 40 138 = Some (q1, q2)"
    and "q1 = (140 + 1 * 4, 138 + 0 * 4)" and "q2 = (180 + (- 1) * 11, 99 + 0 * 11)"
    unfolding anchors gaps by auto
  then have "edgeEndpoints sampleEdge (withLayout HorizontalRight defaultConfig) 40 138
       = Some ((144, 138), (169, 99))"
    by simp
  with id anchors show ?thesis by simp
qed

section \<open>Collision resolution: the order of siblings\<close>

lemma validPath_collectPaths: "validPath p n \<Longrightarrow> p \<in> set (collectPaths n)"
proof (induction p arbitrary: n)
  case Nil
  show ?case by (cases n) simp
next
  case (Cons k p)
  then have "k < length (children n)" and "p \<in> set (collectPaths (children n ! k))" by simp_all
  then show ?case by (subst collectPaths_set) simp
qed

lemma nodeAt_translate:
  "validPath q t \<Longrightarrow> nodeAt q (translate dx dy t) = translate dx dy (nodeAt q t)"
proof (induction q arbitrary: t)
  case Nil
  show ?case by simp
next
  case (Cons k q)
  obtain d cs where t: "t = LayoutNode d cs" by (cases t)
  from Cons.prems have k: "k < length cs" and v: "validPath q (cs ! k)" by (simp_all add: t)
  from Cons.IH [OF v] k show ?case by (simp add: t)
qed

lemma updAt_translate_data:
  "validPath cur t \<Longrightarrow> validPath q t \<Longrightarrow>
   dataOf (nodeAt q (updAt cur (translate dx dy) t))
     = (if take (length cur) q = cur \<and> length cur \<le> length q
        then (dataOf (nodeAt q t))\<lparr> nodeX := nodeX (dataOf (nodeAt q t)) + dx,
                                     nodeY := nodeY (dataOf (nodeAt q t)) + dy \<rparr>
        else dataOf (nodeAt q t))"
proof (induction cur arbitrary: q t)
  case Nil
  then show ?case by (simp add: nodeAt_translate translate_data)
next
  case (Cons k cur)
  obtain d cs where t: "t = LayoutNode d cs" by (cases t)
  from Cons.prems(1) have k: "k < length cs" and vc: "validPath cur (cs ! k)" by (simp_all add: t)
  show ?case
  proof (cases q)
    case Nil
    then show ?thesis by (simp add: t)
  next
    case (Cons j q')
    from Cons.prems(2) have j: "j < length cs" and vq: "validPath q' (cs ! j)"
      by (simp_all add: t Cons)
    show ?thesis
    proof (cases "j = k")
      case True
      with vq have vq': "validPath q' (cs ! k)" by simp
      from Cons.IH [OF vc vq'] k True show ?thesis by (simp add: t Cons)
    next
      case False
      with j k show ?thesis by (simp add: t Cons)
    qed
  qed
qed

lemma take_sibling:
  "length cur \<noteq> Suc (length p) \<Longrightarrow>
   (take (length cur) (p @ [i]) = cur \<and> length cur \<le> length (p @ [i]))
     = (take (length cur) (p @ [j]) = cur \<and> length cur \<le> length (p @ [j]))"
  by (cases "length cur \<le> length p") auto


lemma sweepY_sibling_diff:
  assumes "\<forall>q \<in> set rest. length q \<noteq> Suc (length p) \<and> validPath q t"
    and "validPath (p @ [i]) t" and "validPath (p @ [j]) t"
  shows "nodeY (dataOf (nodeAt (p @ [j]) (sweepY prev rest t)))
           - nodeY (dataOf (nodeAt (p @ [i]) (sweepY prev rest t)))
         = nodeY (dataOf (nodeAt (p @ [j]) t)) - nodeY (dataOf (nodeAt (p @ [i]) t))"
  using assms
proof (induction rest arbitrary: prev t)
  case Nil
  show ?case by simp
next
  case (Cons cur rest)
  define overlap where "overlap = nodeY (dataOf (nodeAt prev t)) + nodeHeight (dataOf (nodeAt prev t)) + 14
             - nodeY (dataOf (nodeAt cur t))"
  define t1 where "t1 = (if overlap > 0 then updAt cur (pushY overlap) t else t)"
  have step: "sweepY prev (cur # rest) t = sweepY cur rest t1"
    unfolding sweepY_step t1_def overlap_def ..
  from Cons.prems have len: "length cur \<noteq> Suc (length p)" and vcur: "validPath cur t" by simp_all
  have rel: "relTree pushedY t t1"
  proof (cases "overlap > 0")
    case True
    then have "\<And>n. relTree pushedY n (pushY overlap n)" by (simp add: relTree_pushY)
    then have "relTree pushedY t (updAt cur (pushY overlap) t)"
      by (intro relTree_updAt pushedY_refl)
    with True show ?thesis by (simp add: t1_def)
  next
    case False
    then show ?thesis by (simp add: t1_def relTree_refl pushedY_refl)
  qed
  have valid1: "\<forall>q \<in> set rest. length q \<noteq> Suc (length p) \<and> validPath q t1"
    using Cons.prems(1) relTree_validPath [OF rel] by auto
  have vi: "validPath (p @ [i]) t1" and vj: "validPath (p @ [j]) t1"
    using Cons.prems(2,3) relTree_validPath [OF rel] by auto
  have IH: "nodeY (dataOf (nodeAt (p @ [j]) (sweepY cur rest t1)))
           - nodeY (dataOf (nodeAt (p @ [i]) (sweepY cur rest t1)))
         = nodeY (dataOf (nodeAt (p @ [j]) t1)) - nodeY (dataOf (nodeAt (p @ [i]) t1))"
    using valid1 vi vj by (rule Cons.IH)
  have one: "nodeY (dataOf (nodeAt (p @ [j]) t1)) - nodeY (dataOf (nodeAt (p @ [i]) t1))
         = nodeY (dataOf (nodeAt (p @ [j]) t)) - nodeY (dataOf (nodeAt (p @ [i]) t))"
  proof (cases "overlap > 0")
    case True
    have t1: "t1 = updAt cur (translate 0 overlap) t"
      using True by (simp add: t1_def pushY_translate [abs_def])
    note sib = take_sibling [OF len, of i j]
    show ?thesis
      unfolding t1
      by (simp only: updAt_translate_data [OF vcur Cons.prems(2)]
            updAt_translate_data [OF vcur Cons.prems(3)] sib) simp
  next
    case False
    then show ?thesis by (simp add: t1_def)
  qed
  show ?case unfolding step using IH one by simp
qed

lemma sorted_pair:
  fixes f g :: "'a \<Rightarrow> real"
  assumes sf: "sorted (map f S)" and sg: "sorted_wrt (\<lambda>p q. g p < g q) S"
    and a: "a \<in> set S" and b: "b \<in> set S" and lt: "f a < f b"
  shows "g a < g b"
proof -
  from a obtain ia where ia: "ia < length S" "S ! ia = a" by (auto simp: in_set_conv_nth)
  from b obtain ib where ib: "ib < length S" "S ! ib = b" by (auto simp: in_set_conv_nth)
  from lt ia ib have neq: "ia \<noteq> ib" by auto
  show ?thesis
  proof (cases "ia < ib")
    case True
    from sorted_wrt_nth_less [OF sg True ib(1)] ia ib show ?thesis by simp
  next
    case False
    with neq have "ib < ia" by simp
    from sf have "sorted_wrt (\<lambda>p q. f p \<le> f q) S" by (simp add: sorted_wrt_map)
    from sorted_wrt_nth_less [OF this \<open>ib < ia\<close> ia(1)] ia ib have "f b \<le> f a" by simp
    with lt show ?thesis by simp
  qed
qed

lemma resolveLevelY_sorted:
  assumes wf: "wfDepth t"
    and h: "\<forall>n \<in> set (collectNodes t). 0 \<le> nodeHeight (dataOf n)"
  shows "sorted_wrt (\<lambda>p q. nodeY (dataOf (nodeAt p (resolveLevelY (levelPaths t k) t)))
                            < nodeY (dataOf (nodeAt q (resolveLevelY (levelPaths t k) t))))
           (levelOrder nodeY t k)"
proof (cases "levelOrder nodeY t k")
  case Nil
  then show ?thesis by simp
next
  case (Cons first rest)
  define S where "S = first # rest"
  define t' where "t' = sweepY first rest t"
  have S: "S = sort_key (\<lambda>p. nodeY (dataOf (nodeAt p t))) (levelPaths t k)"
    using Cons by (simp add: S_def levelOrder_def)
  have res: "resolveLevelY (levelPaths t k) t = t'"
    using Cons by (simp add: resolveLevelY_def levelOrder_def t'_def)
  have setS: "set S = set (levelPaths t k)" by (simp add: S)
  have dL: "distinct (levelPaths t k)" by (simp add: levelPaths_def collectPaths_distinct)
  then have dS: "distinct S" by (simp add: S)
  have props: "\<forall>p \<in> set S. length p = k - nodeDepth (dataOf t) \<and> validPath p t"
    using levelPaths_props [OF wf] setS by blast
  have chain: "chainY t' S"
    unfolding t'_def S_def using dS props by (intro sweepY_chain [where m = "k - nodeDepth (dataOf t)"]) (simp_all add: S_def)
  have rel: "relTree pushedY t t'" unfolding t'_def by (rule sweepY_frame)
  have heights: "\<forall>p \<in> set S. 0 \<le> nodeHeight (dataOf (nodeAt p t'))"
  proof
    fix p assume p: "p \<in> set S"
    with setS have pl: "p \<in> set (levelPaths t k)" by simp
    have "nodeAt p t \<in> set (collectNodes t)"
      by (rule nodeAt_in_collectNodes) (rule levelPaths_props(1) [OF wf pl])
    with h have "0 \<le> nodeHeight (dataOf (nodeAt p t))" by blast
    moreover have "pushedY (dataOf (nodeAt p t)) (dataOf (nodeAt p t'))"
      by (rule relTree_data [OF relTree_nodeAt [OF rel levelPaths_props(2) [OF wf pl]]])
    ultimately show "0 \<le> nodeHeight (dataOf (nodeAt p t'))"
      using pushedY_fields by metis
  qed
  have "sorted_wrt (\<lambda>p q. nodeY (dataOf (nodeAt p t')) < nodeY (dataOf (nodeAt q t'))) S"
    using chain heights by (rule chainY_strict)
  then show ?thesis by (simp add: res Cons S_def)
qed

lemma resolveLevelY_same_level:
  assumes wf: "wfDepth t"
    and h: "\<forall>n \<in> set (collectNodes t). 0 \<le> nodeHeight (dataOf n)"
    and a: "a \<in> set (levelPaths t k)" and b: "b \<in> set (levelPaths t k)"
    and lt: "nodeY (dataOf (nodeAt a t)) < nodeY (dataOf (nodeAt b t))"
  shows "nodeY (dataOf (nodeAt a (resolveLevelY (levelPaths t k) t)))
           < nodeY (dataOf (nodeAt b (resolveLevelY (levelPaths t k) t)))"
proof (rule sorted_pair [where S = "levelOrder nodeY t k" and f = "\<lambda>p. nodeY (dataOf (nodeAt p t))"])
  show "sorted (map (\<lambda>p. nodeY (dataOf (nodeAt p t))) (levelOrder nodeY t k))"
    by (simp add: levelOrder_def)
  show "sorted_wrt (\<lambda>p q. nodeY (dataOf (nodeAt p (resolveLevelY (levelPaths t k) t)))
                            < nodeY (dataOf (nodeAt q (resolveLevelY (levelPaths t k) t))))
           (levelOrder nodeY t k)"
    using wf h by (rule resolveLevelY_sorted)
  show "a \<in> set (levelOrder nodeY t k)" using a by (simp add: levelOrder_def)
  show "b \<in> set (levelOrder nodeY t k)" using b by (simp add: levelOrder_def)
  show "nodeY (dataOf (nodeAt a t)) < nodeY (dataOf (nodeAt b t))" by (rule lt)
qed

lemma resolveLevelY_sibling:
  assumes wf: "wfDepth t"
    and h: "\<forall>n \<in> set (collectNodes t). 0 \<le> nodeHeight (dataOf n)"
    and va: "validPath (p @ [i]) t" and vb: "validPath (p @ [j]) t"
    and lt: "nodeY (dataOf (nodeAt (p @ [i]) t)) < nodeY (dataOf (nodeAt (p @ [j]) t))"
  shows "nodeY (dataOf (nodeAt (p @ [i]) (resolveLevelY (levelPaths t k) t)))
           < nodeY (dataOf (nodeAt (p @ [j]) (resolveLevelY (levelPaths t k) t)))"
proof (cases "p @ [i] \<in> set (levelPaths t k)")
  case True
  then have "nodeDepth (dataOf (nodeAt (p @ [i]) t)) = k" by (simp add: levelPaths_def)
  with wfDepth_nodeAt [OF wf va] wfDepth_nodeAt [OF wf vb]
  have "nodeDepth (dataOf (nodeAt (p @ [j]) t)) = k" by simp
  with validPath_collectPaths [OF vb] have "p @ [j] \<in> set (levelPaths t k)"
    by (simp add: levelPaths_def)
  with wf h True show ?thesis using lt by (rule resolveLevelY_same_level)
next
  case False
  have other: "\<forall>q \<in> set (levelPaths t k). length q \<noteq> Suc (length p) \<and> validPath q t"
  proof
    fix q assume q: "q \<in> set (levelPaths t k)"
    then have vq: "validPath q t" by (rule levelPaths_props(2) [OF wf])
    from q have dq: "nodeDepth (dataOf (nodeAt q t)) = k" by (simp add: levelPaths_def)
    have "length q \<noteq> Suc (length p)"
    proof
      assume "length q = Suc (length p)"
      with wfDepth_nodeAt [OF wf vq] wfDepth_nodeAt [OF wf va] dq
      have "nodeDepth (dataOf (nodeAt (p @ [i]) t)) = k" by simp
      with validPath_collectPaths [OF va] have "p @ [i] \<in> set (levelPaths t k)"
        by (simp add: levelPaths_def)
      with False show False by simp
    qed
    with vq show "length q \<noteq> Suc (length p) \<and> validPath q t" by simp
  qed
  show ?thesis
  proof (cases "sort_key (\<lambda>p. nodeY (dataOf (nodeAt p t))) (levelPaths t k)")
    case Nil
    then show ?thesis using lt by (simp add: resolveLevelY_def)
  next
    case (Cons first rest)
    then have "set rest \<subseteq> set (levelPaths t k)"
      by (metis set_sort set_subset_Cons)
    with other have "\<forall>q \<in> set rest. length q \<noteq> Suc (length p) \<and> validPath q t" by blast
    from sweepY_sibling_diff [OF this va vb, of first] lt
    show ?thesis by (simp add: resolveLevelY_def Cons)
  qed
qed

lemma wfDepth_rel:
  assumes keep: "\<And>d d'. R d d' \<Longrightarrow> nodeDepth d' = nodeDepth d"
  shows "relTree R a b \<Longrightarrow> wfDepth a \<Longrightarrow> wfDepth b"
proof (induction a arbitrary: b)
  case (LayoutNode d cs)
  obtain d' cs' where b: "b = LayoutNode d' cs'" by (cases b)
  from LayoutNode.prems(1) have r: "R d d'" and l: "list_all2 (relTree R) cs cs'" by (simp_all add: b)
  have "\<forall>c' \<in> set cs'. nodeDepth (dataOf c') = nodeDepth d' + 1 \<and> wfDepth c'"
  proof
    fix c' assume "c' \<in> set cs'"
    then obtain n where n: "n < length cs'" "cs' ! n = c'" by (auto simp: in_set_conv_nth)
    from l n have len: "n < length cs" and rc: "relTree R (cs ! n) c'"
      by (auto simp: list_all2_conv_all_nth)
    then have mem: "cs ! n \<in> set cs" by simp
    with LayoutNode.prems(2) have dc: "nodeDepth (dataOf (cs ! n)) = nodeDepth d + 1" and wc: "wfDepth (cs ! n)"
      by auto
    from LayoutNode.IH [OF mem rc wc] have "wfDepth c'" .
    moreover from relTree_data [OF rc] have "nodeDepth (dataOf c') = nodeDepth (dataOf (cs ! n))" by (rule keep)
    moreover from r have "nodeDepth d' = nodeDepth d" by (rule keep)
    ultimately show "nodeDepth (dataOf c') = nodeDepth d' + 1 \<and> wfDepth c'" using dc by simp
  qed
  then show ?case by (simp add: b)
qed

lemma heights_rel:
  assumes rel: "relTree pushedY t s"
    and h: "\<forall>n \<in> set (collectNodes t). 0 \<le> nodeHeight (dataOf n)"
  shows "\<forall>n \<in> set (collectNodes s). 0 \<le> nodeHeight (dataOf n)"
proof
  fix n assume "n \<in> set (collectNodes s)"
  then obtain m where m: "m < length (collectNodes s)" "collectNodes s ! m = n"
    by (auto simp: in_set_conv_nth)
  from relTree_collectNodes [OF rel] m
  have len: "m < length (collectNodes t)" and p: "pushedY (dataOf (collectNodes t ! m)) (dataOf n)"
    by (auto simp: list_all2_conv_all_nth)
  from len h have "0 \<le> nodeHeight (dataOf (collectNodes t ! m))" by simp
  with pushedY_fields [OF p] show "0 \<le> nodeHeight (dataOf n)" by simp
qed

lemma fold_levelsY_sibling:
  assumes wf: "wfDepth t"
    and h: "\<forall>n \<in> set (collectNodes t). 0 \<le> nodeHeight (dataOf n)"
    and va: "validPath (p @ [i]) t" and vb: "validPath (p @ [j]) t"
  shows "\<forall>e \<in> set levels. snd e = levelPaths t (fst e) \<Longrightarrow> relTree pushedY t s \<Longrightarrow>
     nodeY (dataOf (nodeAt (p @ [i]) s)) < nodeY (dataOf (nodeAt (p @ [j]) s)) \<Longrightarrow>
     nodeY (dataOf (nodeAt (p @ [i]) (fold (\<lambda>(k, depthNodes) u. resolveLevelY depthNodes u) levels s)))
       < nodeY (dataOf (nodeAt (p @ [j]) (fold (\<lambda>(k, depthNodes) u. resolveLevelY depthNodes u) levels s)))"
proof (induction levels arbitrary: s)
  case Nil
  then show ?case by simp
next
  case (Cons lv levels)
  obtain k depthNodes where lv: "lv = (k, depthNodes)" by (cases lv)
  from Cons.prems(1) have dn: "depthNodes = levelPaths t k" by (simp add: lv)
  have lev: "levelPaths s k = levelPaths t k"
    using Cons.prems(2) pushedY_fields by (intro levelPaths_rel [where R = pushedY]) auto
  have keep: "\<And>d d'. pushedY d d' \<Longrightarrow> nodeDepth d' = nodeDepth d"
    using pushedY_fields by blast
  have wfs: "wfDepth s"
    by (rule wfDepth_rel [where R = pushedY and a = t]) (rule keep, assumption, rule Cons.prems(2), rule wf)
  have hs: "\<forall>n \<in> set (collectNodes s). 0 \<le> nodeHeight (dataOf n)"
    using Cons.prems(2) h by (rule heights_rel)
  have vas: "validPath (p @ [i]) s" and vbs: "validPath (p @ [j]) s"
    using va vb relTree_validPath [OF Cons.prems(2)] by auto
  have one: "nodeY (dataOf (nodeAt (p @ [i]) (resolveLevelY depthNodes s)))
           < nodeY (dataOf (nodeAt (p @ [j]) (resolveLevelY depthNodes s)))"
    unfolding dn lev [symmetric] using wfs hs vas vbs Cons.prems(3) by (rule resolveLevelY_sibling)
  have rel: "relTree pushedY t (resolveLevelY depthNodes s)"
    using Cons.prems(2) resolveLevelY_frame by (rule relTree_trans [OF pushedY_trans])
  from Cons.prems(1) have rest: "\<forall>e \<in> set levels. snd e = levelPaths t (fst e)" by simp
  from Cons.IH [OF rest rel one] show ?case by (simp add: lv)
qed

lemma sweepX_sibling_diff:
  assumes "\<forall>q \<in> set rest. length q \<noteq> Suc (length p) \<and> validPath q t"
    and "validPath (p @ [i]) t" and "validPath (p @ [j]) t"
  shows "nodeX (dataOf (nodeAt (p @ [j]) (sweepX prev rest t)))
           - nodeX (dataOf (nodeAt (p @ [i]) (sweepX prev rest t)))
         = nodeX (dataOf (nodeAt (p @ [j]) t)) - nodeX (dataOf (nodeAt (p @ [i]) t))"
  using assms
proof (induction rest arbitrary: prev t)
  case Nil
  show ?case by simp
next
  case (Cons cur rest)
  define overlap where "overlap = nodeX (dataOf (nodeAt prev t)) + nodeWidth (dataOf (nodeAt prev t)) + 14
             - nodeX (dataOf (nodeAt cur t))"
  define t1 where "t1 = (if overlap > 0 then updAt cur (pushX overlap) t else t)"
  have step: "sweepX prev (cur # rest) t = sweepX cur rest t1"
    unfolding sweepX_step t1_def overlap_def ..
  from Cons.prems have len: "length cur \<noteq> Suc (length p)" and vcur: "validPath cur t" by simp_all
  have rel: "relTree pushedX t t1"
  proof (cases "overlap > 0")
    case True
    then have "\<And>n. relTree pushedX n (pushX overlap n)" by (simp add: relTree_pushX)
    then have "relTree pushedX t (updAt cur (pushX overlap) t)"
      by (intro relTree_updAt pushedX_refl)
    with True show ?thesis by (simp add: t1_def)
  next
    case False
    then show ?thesis by (simp add: t1_def relTree_refl pushedX_refl)
  qed
  have valid1: "\<forall>q \<in> set rest. length q \<noteq> Suc (length p) \<and> validPath q t1"
    using Cons.prems(1) relTree_validPath [OF rel] by auto
  have vi: "validPath (p @ [i]) t1" and vj: "validPath (p @ [j]) t1"
    using Cons.prems(2,3) relTree_validPath [OF rel] by auto
  have IH: "nodeX (dataOf (nodeAt (p @ [j]) (sweepX cur rest t1)))
           - nodeX (dataOf (nodeAt (p @ [i]) (sweepX cur rest t1)))
         = nodeX (dataOf (nodeAt (p @ [j]) t1)) - nodeX (dataOf (nodeAt (p @ [i]) t1))"
    using valid1 vi vj by (rule Cons.IH)
  have one: "nodeX (dataOf (nodeAt (p @ [j]) t1)) - nodeX (dataOf (nodeAt (p @ [i]) t1))
         = nodeX (dataOf (nodeAt (p @ [j]) t)) - nodeX (dataOf (nodeAt (p @ [i]) t))"
  proof (cases "overlap > 0")
    case True
    have t1: "t1 = updAt cur (translate overlap 0) t"
      using True by (simp add: t1_def pushX_translate [abs_def])
    note sib = take_sibling [OF len, of i j]
    show ?thesis
      unfolding t1
      by (simp only: updAt_translate_data [OF vcur Cons.prems(2)]
            updAt_translate_data [OF vcur Cons.prems(3)] sib) simp
  next
    case False
    then show ?thesis by (simp add: t1_def)
  qed
  show ?case unfolding step using IH one by simp
qed

lemma resolveLevelX_sorted:
  assumes wf: "wfDepth t"
    and h: "\<forall>n \<in> set (collectNodes t). 0 \<le> nodeWidth (dataOf n)"
  shows "sorted_wrt (\<lambda>p q. nodeX (dataOf (nodeAt p (resolveLevelX (levelPaths t k) t)))
                            < nodeX (dataOf (nodeAt q (resolveLevelX (levelPaths t k) t))))
           (levelOrder nodeX t k)"
proof (cases "levelOrder nodeX t k")
  case Nil
  then show ?thesis by simp
next
  case (Cons first rest)
  define S where "S = first # rest"
  define t' where "t' = sweepX first rest t"
  have S: "S = sort_key (\<lambda>p. nodeX (dataOf (nodeAt p t))) (levelPaths t k)"
    using Cons by (simp add: S_def levelOrder_def)
  have res: "resolveLevelX (levelPaths t k) t = t'"
    using Cons by (simp add: resolveLevelX_def levelOrder_def t'_def)
  have setS: "set S = set (levelPaths t k)" by (simp add: S)
  have dL: "distinct (levelPaths t k)" by (simp add: levelPaths_def collectPaths_distinct)
  then have dS: "distinct S" by (simp add: S)
  have props: "\<forall>p \<in> set S. length p = k - nodeDepth (dataOf t) \<and> validPath p t"
    using levelPaths_props [OF wf] setS by blast
  have chain: "chainX t' S"
    unfolding t'_def S_def using dS props by (intro sweepX_chain [where m = "k - nodeDepth (dataOf t)"]) (simp_all add: S_def)
  have rel: "relTree pushedX t t'" unfolding t'_def by (rule sweepX_frame)
  have heights: "\<forall>p \<in> set S. 0 \<le> nodeWidth (dataOf (nodeAt p t'))"
  proof
    fix p assume p: "p \<in> set S"
    with setS have pl: "p \<in> set (levelPaths t k)" by simp
    have "nodeAt p t \<in> set (collectNodes t)"
      by (rule nodeAt_in_collectNodes) (rule levelPaths_props(1) [OF wf pl])
    with h have "0 \<le> nodeWidth (dataOf (nodeAt p t))" by blast
    moreover have "pushedX (dataOf (nodeAt p t)) (dataOf (nodeAt p t'))"
      by (rule relTree_data [OF relTree_nodeAt [OF rel levelPaths_props(2) [OF wf pl]]])
    ultimately show "0 \<le> nodeWidth (dataOf (nodeAt p t'))"
      using pushedX_fields by metis
  qed
  have "sorted_wrt (\<lambda>p q. nodeX (dataOf (nodeAt p t')) < nodeX (dataOf (nodeAt q t'))) S"
    using chain heights by (rule chainX_strict)
  then show ?thesis by (simp add: res Cons S_def)
qed

lemma resolveLevelX_same_level:
  assumes wf: "wfDepth t"
    and h: "\<forall>n \<in> set (collectNodes t). 0 \<le> nodeWidth (dataOf n)"
    and a: "a \<in> set (levelPaths t k)" and b: "b \<in> set (levelPaths t k)"
    and lt: "nodeX (dataOf (nodeAt a t)) < nodeX (dataOf (nodeAt b t))"
  shows "nodeX (dataOf (nodeAt a (resolveLevelX (levelPaths t k) t)))
           < nodeX (dataOf (nodeAt b (resolveLevelX (levelPaths t k) t)))"
proof (rule sorted_pair [where S = "levelOrder nodeX t k" and f = "\<lambda>p. nodeX (dataOf (nodeAt p t))"])
  show "sorted (map (\<lambda>p. nodeX (dataOf (nodeAt p t))) (levelOrder nodeX t k))"
    by (simp add: levelOrder_def)
  show "sorted_wrt (\<lambda>p q. nodeX (dataOf (nodeAt p (resolveLevelX (levelPaths t k) t)))
                            < nodeX (dataOf (nodeAt q (resolveLevelX (levelPaths t k) t))))
           (levelOrder nodeX t k)"
    using wf h by (rule resolveLevelX_sorted)
  show "a \<in> set (levelOrder nodeX t k)" using a by (simp add: levelOrder_def)
  show "b \<in> set (levelOrder nodeX t k)" using b by (simp add: levelOrder_def)
  show "nodeX (dataOf (nodeAt a t)) < nodeX (dataOf (nodeAt b t))" by (rule lt)
qed

lemma resolveLevelX_sibling:
  assumes wf: "wfDepth t"
    and h: "\<forall>n \<in> set (collectNodes t). 0 \<le> nodeWidth (dataOf n)"
    and va: "validPath (p @ [i]) t" and vb: "validPath (p @ [j]) t"
    and lt: "nodeX (dataOf (nodeAt (p @ [i]) t)) < nodeX (dataOf (nodeAt (p @ [j]) t))"
  shows "nodeX (dataOf (nodeAt (p @ [i]) (resolveLevelX (levelPaths t k) t)))
           < nodeX (dataOf (nodeAt (p @ [j]) (resolveLevelX (levelPaths t k) t)))"
proof (cases "p @ [i] \<in> set (levelPaths t k)")
  case True
  then have "nodeDepth (dataOf (nodeAt (p @ [i]) t)) = k" by (simp add: levelPaths_def)
  with wfDepth_nodeAt [OF wf va] wfDepth_nodeAt [OF wf vb]
  have "nodeDepth (dataOf (nodeAt (p @ [j]) t)) = k" by simp
  with validPath_collectPaths [OF vb] have "p @ [j] \<in> set (levelPaths t k)"
    by (simp add: levelPaths_def)
  with wf h True show ?thesis using lt by (rule resolveLevelX_same_level)
next
  case False
  have other: "\<forall>q \<in> set (levelPaths t k). length q \<noteq> Suc (length p) \<and> validPath q t"
  proof
    fix q assume q: "q \<in> set (levelPaths t k)"
    then have vq: "validPath q t" by (rule levelPaths_props(2) [OF wf])
    from q have dq: "nodeDepth (dataOf (nodeAt q t)) = k" by (simp add: levelPaths_def)
    have "length q \<noteq> Suc (length p)"
    proof
      assume "length q = Suc (length p)"
      with wfDepth_nodeAt [OF wf vq] wfDepth_nodeAt [OF wf va] dq
      have "nodeDepth (dataOf (nodeAt (p @ [i]) t)) = k" by simp
      with validPath_collectPaths [OF va] have "p @ [i] \<in> set (levelPaths t k)"
        by (simp add: levelPaths_def)
      with False show False by simp
    qed
    with vq show "length q \<noteq> Suc (length p) \<and> validPath q t" by simp
  qed
  show ?thesis
  proof (cases "sort_key (\<lambda>p. nodeX (dataOf (nodeAt p t))) (levelPaths t k)")
    case Nil
    then show ?thesis using lt by (simp add: resolveLevelX_def)
  next
    case (Cons first rest)
    then have "set rest \<subseteq> set (levelPaths t k)"
      by (metis set_sort set_subset_Cons)
    with other have "\<forall>q \<in> set rest. length q \<noteq> Suc (length p) \<and> validPath q t" by blast
    from sweepX_sibling_diff [OF this va vb, of first] lt
    show ?thesis by (simp add: resolveLevelX_def Cons)
  qed
qed

lemma widths_rel:
  assumes rel: "relTree pushedX t s"
    and h: "\<forall>n \<in> set (collectNodes t). 0 \<le> nodeWidth (dataOf n)"
  shows "\<forall>n \<in> set (collectNodes s). 0 \<le> nodeWidth (dataOf n)"
proof
  fix n assume "n \<in> set (collectNodes s)"
  then obtain m where m: "m < length (collectNodes s)" "collectNodes s ! m = n"
    by (auto simp: in_set_conv_nth)
  from relTree_collectNodes [OF rel] m
  have len: "m < length (collectNodes t)" and p: "pushedX (dataOf (collectNodes t ! m)) (dataOf n)"
    by (auto simp: list_all2_conv_all_nth)
  from len h have "0 \<le> nodeWidth (dataOf (collectNodes t ! m))" by simp
  with pushedX_fields [OF p] show "0 \<le> nodeWidth (dataOf n)" by simp
qed

lemma fold_levelsX_sibling:
  assumes wf: "wfDepth t"
    and h: "\<forall>n \<in> set (collectNodes t). 0 \<le> nodeWidth (dataOf n)"
    and va: "validPath (p @ [i]) t" and vb: "validPath (p @ [j]) t"
  shows "\<forall>e \<in> set levels. snd e = levelPaths t (fst e) \<Longrightarrow> relTree pushedX t s \<Longrightarrow>
     nodeX (dataOf (nodeAt (p @ [i]) s)) < nodeX (dataOf (nodeAt (p @ [j]) s)) \<Longrightarrow>
     nodeX (dataOf (nodeAt (p @ [i]) (fold (\<lambda>(k, depthNodes) u. resolveLevelX depthNodes u) levels s)))
       < nodeX (dataOf (nodeAt (p @ [j]) (fold (\<lambda>(k, depthNodes) u. resolveLevelX depthNodes u) levels s)))"
proof (induction levels arbitrary: s)
  case Nil
  then show ?case by simp
next
  case (Cons lv levels)
  obtain k depthNodes where lv: "lv = (k, depthNodes)" by (cases lv)
  from Cons.prems(1) have dn: "depthNodes = levelPaths t k" by (simp add: lv)
  have lev: "levelPaths s k = levelPaths t k"
    using Cons.prems(2) pushedX_fields by (intro levelPaths_rel [where R = pushedX]) auto
  have keep: "\<And>d d'. pushedX d d' \<Longrightarrow> nodeDepth d' = nodeDepth d"
    using pushedX_fields by blast
  have wfs: "wfDepth s"
    by (rule wfDepth_rel [where R = pushedX and a = t]) (rule keep, assumption, rule Cons.prems(2), rule wf)
  have hs: "\<forall>n \<in> set (collectNodes s). 0 \<le> nodeWidth (dataOf n)"
    using Cons.prems(2) h by (rule widths_rel)
  have vas: "validPath (p @ [i]) s" and vbs: "validPath (p @ [j]) s"
    using va vb relTree_validPath [OF Cons.prems(2)] by auto
  have one: "nodeX (dataOf (nodeAt (p @ [i]) (resolveLevelX depthNodes s)))
           < nodeX (dataOf (nodeAt (p @ [j]) (resolveLevelX depthNodes s)))"
    unfolding dn lev [symmetric] using wfs hs vas vbs Cons.prems(3) by (rule resolveLevelX_sibling)
  have rel: "relTree pushedX t (resolveLevelX depthNodes s)"
    using Cons.prems(2) resolveLevelX_frame by (rule relTree_trans [OF pushedX_trans])
  from Cons.prems(1) have rest: "\<forall>e \<in> set levels. snd e = levelPaths t (fst e)" by simp
  from Cons.IH [OF rest rel one] show ?case by (simp add: lv)
qed

lemma byDepth_levels:
  "\<forall>e \<in> set (byDepth t (collectPaths t)). snd e = levelPaths t (fst e)"
proof
  fix e assume e: "e \<in> set (byDepth t (collectPaths t))"
  obtain k depthNodes where kd: "e = (k, depthNodes)" by (cases e)
  from e have "depthNodes = filter (\<lambda>p. nodeDepth (dataOf (nodeAt p t)) = k) (collectPaths t)"
    unfolding kd by (rule byDepth_level)
  then show "snd e = levelPaths t (fst e)" by (simp add: kd levelPaths_def)
qed

text \<open>
  C2 (as amended). Outside the radial layout, on a tree with consistent depths and
  non-negative node sizes, the whole of \<^verbatim>\<open>resolveCollisions\<close> never swaps two children
  of one parent on the packing axis (\<open>x\<close> in the vertical layout, \<open>y\<close> in the others):
  a child that starts strictly before a sibling before collision resolution still starts
  strictly before it afterwards, and both are still the same nodes at the same places in
  the tree.
\<close>

theorem resolveCollisions_keeps_sibling_order:
  assumes lay: "lay \<noteq> Radial"
    and wf: "wfDepth t"
    and sz: "\<forall>n \<in> set (collectNodes t). 0 \<le> nodeWidth (dataOf n) \<and> 0 \<le> nodeHeight (dataOf n)"
    and vi: "validPath (p @ [i]) t" and vj: "validPath (p @ [j]) t"
    and lt: "(if lay = Vertical then nodeX else nodeY) (dataOf (nodeAt (p @ [i]) t))
               < (if lay = Vertical then nodeX else nodeY) (dataOf (nodeAt (p @ [j]) t))"
  shows "validPath (p @ [i]) (resolveCollisions (collectPaths t) lay t)
       \<and> validPath (p @ [j]) (resolveCollisions (collectPaths t) lay t)
       \<and> nodeId (dataOf (nodeAt (p @ [i]) (resolveCollisions (collectPaths t) lay t)))
           = nodeId (dataOf (nodeAt (p @ [i]) t))
       \<and> nodeId (dataOf (nodeAt (p @ [j]) (resolveCollisions (collectPaths t) lay t)))
           = nodeId (dataOf (nodeAt (p @ [j]) t))
       \<and> (if lay = Vertical then nodeX else nodeY)
              (dataOf (nodeAt (p @ [i]) (resolveCollisions (collectPaths t) lay t)))
           < (if lay = Vertical then nodeX else nodeY)
              (dataOf (nodeAt (p @ [j]) (resolveCollisions (collectPaths t) lay t)))"
proof (cases "lay = Vertical")
  case True
  define t' where "t' = resolveCollisions (collectPaths t) lay t"
  have t': "t' = fold (\<lambda>(k, depthNodes) u. resolveLevelX depthNodes u) (byDepth t (collectPaths t)) t"
    using True by (simp add: t'_def resolveCollisions_def)
  have rel: "relTree pushedX t t'"
    unfolding t' by (rule fold_levels_frame [where R = pushedX, OF pushedX_refl pushedX_trans resolveLevelX_frame])
  have w: "\<forall>n \<in> set (collectNodes t). 0 \<le> nodeWidth (dataOf n)" using sz by simp
  from lt True have lt': "nodeX (dataOf (nodeAt (p @ [i]) t)) < nodeX (dataOf (nodeAt (p @ [j]) t))"
    by simp
  have ord: "nodeX (dataOf (nodeAt (p @ [i]) t')) < nodeX (dataOf (nodeAt (p @ [j]) t'))"
    unfolding t'
    by (rule fold_levelsX_sibling [OF wf w vi vj byDepth_levels _ lt'])
       (rule relTree_refl, rule pushedX_refl)
  have v: "validPath (p @ [i]) t'" "validPath (p @ [j]) t'"
    using vi vj relTree_validPath [OF rel] by auto
  have ids: "nodeId (dataOf (nodeAt (p @ [i]) t')) = nodeId (dataOf (nodeAt (p @ [i]) t))"
    "nodeId (dataOf (nodeAt (p @ [j]) t')) = nodeId (dataOf (nodeAt (p @ [j]) t))"
    using pushedX_fields [OF relTree_data [OF relTree_nodeAt [OF rel vi]]]
          pushedX_fields [OF relTree_data [OF relTree_nodeAt [OF rel vj]]] by simp_all
  from v ids ord True show ?thesis unfolding t'_def by simp
next
  case False
  define t' where "t' = resolveCollisions (collectPaths t) lay t"
  have t': "t' = fold (\<lambda>(k, depthNodes) u. resolveLevelY depthNodes u) (byDepth t (collectPaths t)) t"
    using False lay by (simp add: t'_def resolveCollisions_def)
  have rel: "relTree pushedY t t'"
    unfolding t' by (rule fold_levels_frame [where R = pushedY, OF pushedY_refl pushedY_trans resolveLevelY_frame])
  have h: "\<forall>n \<in> set (collectNodes t). 0 \<le> nodeHeight (dataOf n)" using sz by simp
  from lt False have lt': "nodeY (dataOf (nodeAt (p @ [i]) t)) < nodeY (dataOf (nodeAt (p @ [j]) t))"
    by simp
  have ord: "nodeY (dataOf (nodeAt (p @ [i]) t')) < nodeY (dataOf (nodeAt (p @ [j]) t'))"
    unfolding t'
    by (rule fold_levelsY_sibling [OF wf h vi vj byDepth_levels _ lt'])
       (rule relTree_refl, rule pushedY_refl)
  have v: "validPath (p @ [i]) t'" "validPath (p @ [j]) t'"
    using vi vj relTree_validPath [OF rel] by auto
  have ids: "nodeId (dataOf (nodeAt (p @ [i]) t')) = nodeId (dataOf (nodeAt (p @ [i]) t))"
    "nodeId (dataOf (nodeAt (p @ [j]) t')) = nodeId (dataOf (nodeAt (p @ [j]) t))"
    using pushedY_fields [OF relTree_data [OF relTree_nodeAt [OF rel vi]]]
          pushedY_fields [OF relTree_data [OF relTree_nodeAt [OF rel vj]]] by simp_all
  from v ids ord False show ?thesis unfolding t'_def by simp
qed

lemma siblingLaid_tree:
  "siblingLaid =
     LayoutNode \<lparr> nodeId = ''root'', nodeSrc = siblingSample, nodeX = - 50, nodeY = - 20,
                  nodeWidth = 100, nodeHeight = 40, nodeDepth = 0, nodeAngle = None \<rparr>
       [LayoutNode \<lparr> nodeId = ''a'', nodeSrc = leaf ''a'', nodeX = 120, nodeY = - 20,
                     nodeWidth = 100, nodeHeight = 40, nodeDepth = 1, nodeAngle = None \<rparr> [],
        LayoutNode \<lparr> nodeId = ''b'', nodeSrc = leaf ''b'', nodeX = - 220, nodeY = - 61,
                     nodeWidth = 100, nodeHeight = 40, nodeDepth = 1, nodeAngle = None \<rparr> [],
        LayoutNode \<lparr> nodeId = ''c'', nodeSrc = leaf ''c'', nodeX = - 220, nodeY = 21,
                     nodeWidth = 100, nodeHeight = 40, nodeDepth = 1, nodeAngle = None \<rparr> []]"
  by (simp add: siblingLaid_def siblingSample_def leaf_def withLayout_def defaultConfig_def fixedMeasure_def
        applyLayout_def layoutTree_def splitChildren_def bestSplitOf_def calcNodeSize_def fontSizeFor_def Let_def)

theorem resolveCollisions_keeps_sibling_order_witness:
  "wfDepth siblingLaid
   \<and> map (\<lambda>q. (nodeId (dataOf (nodeAt q siblingLaid)), nodeY (dataOf (nodeAt q siblingLaid)))) [[1], [0], [2]]
       = [(''b'', - 61), (''a'', - 20), (''c'', 21)]
   \<and> map (\<lambda>q. (nodeId (dataOf (nodeAt q (resolveCollisions (collectPaths siblingLaid) Tree siblingLaid))),
                 nodeY (dataOf (nodeAt q (resolveCollisions (collectPaths siblingLaid) Tree siblingLaid)))))
         [[1], [0], [2]]
       = [(''b'', - 61), (''a'', - 7), (''c'', 47)]
   \<and> nodeY (dataOf (nodeAt [1] (resolveCollisions (collectPaths siblingLaid) Tree siblingLaid)))
       < nodeY (dataOf (nodeAt [0] (resolveCollisions (collectPaths siblingLaid) Tree siblingLaid)))"
proof -
  have wf: "wfDepth siblingLaid" by (simp add: siblingLaid_tree)
  have sz: "\<forall>n \<in> set (collectNodes siblingLaid). 0 \<le> nodeWidth (dataOf n) \<and> 0 \<le> nodeHeight (dataOf n)"
    by (simp add: siblingLaid_tree)
  have v1: "validPath ([] @ [1]) siblingLaid" and v0: "validPath ([] @ [0]) siblingLaid"
    by (simp_all add: siblingLaid_tree)
  have lt: "(if Tree = Vertical then nodeX else nodeY) (dataOf (nodeAt ([] @ [1]) siblingLaid))
               < (if Tree = Vertical then nodeX else nodeY) (dataOf (nodeAt ([] @ [0]) siblingLaid))"
    by (simp add: siblingLaid_tree)
  have before: "map (\<lambda>q. (nodeId (dataOf (nodeAt q siblingLaid)), nodeY (dataOf (nodeAt q siblingLaid)))) [[1], [0], [2]]
       = [(''b'', - 61), (''a'', - 20), (''c'', 21)]"
    by (simp add: siblingLaid_tree)
  have after: "map (\<lambda>q. (nodeId (dataOf (nodeAt q (resolveCollisions (collectPaths siblingLaid) Tree siblingLaid))),
                 nodeY (dataOf (nodeAt q (resolveCollisions (collectPaths siblingLaid) Tree siblingLaid)))))
         [[1], [0], [2]]
       = [(''b'', - 61), (''a'', - 7), (''c'', 47)]"
    by (simp add: siblingLaid_tree resolveCollisions_def byDepth_def resolveLevelY_def pushY_def)
  have "Tree \<noteq> Radial" by simp
  from resolveCollisions_keeps_sibling_order [OF this wf sz v1 v0 lt]
  have "nodeY (dataOf (nodeAt [1] (resolveCollisions (collectPaths siblingLaid) Tree siblingLaid)))
       < nodeY (dataOf (nodeAt [0] (resolveCollisions (collectPaths siblingLaid) Tree siblingLaid)))"
    by simp
  with wf before after show ?thesis by (intro conjI)
qed

section \<open>Tree construction: the layout nodes and edges of a source tree\<close>

lemma buildLayoutTree_children:
  "children (buildLayoutTree textOracle config src depth) =
     (if srcCollapsed src \<noteq> Some True \<and> real depth < maxDepth (structureCfg config)
      then map (\<lambda>child. buildLayoutTree textOracle config child (depth + 1)) (srcChildren src)
      else [])"
  by (cases src) simp

lemma buildLayoutTree_data:
  "nodeSrc (dataOf (buildLayoutTree textOracle config src depth)) = src"
  "nodeDepth (dataOf (buildLayoutTree textOracle config src depth)) = depth"
  "nodeId (dataOf (buildLayoutTree textOracle config src depth)) = srcId src"
  by (cases src, simp)+

lemma buildLayoutTree_validPath:
  "validPath r (buildLayoutTree textOracle config src depth) =
     (validSrc r src
      \<and> (\<forall>n < length r. srcCollapsed (srcAt (take n r) src) \<noteq> Some True
                          \<and> real (depth + n) < maxDepth (structureCfg config)))"
proof (induction r arbitrary: src depth)
  case Nil
  show ?case by simp
next
  case (Cons k r)
  show ?case
  proof (cases "srcCollapsed src \<noteq> Some True \<and> real depth < maxDepth (structureCfg config)")
    case True
    then have "validPath (k # r) (buildLayoutTree textOracle config src depth) =
        (k < length (srcChildren src)
         \<and> validPath r (buildLayoutTree textOracle config (srcChildren src ! k) (depth + 1)))"
      by (auto simp: buildLayoutTree_children)
    also have "\<dots> = (k < length (srcChildren src) \<and> validSrc r (srcChildren src ! k)
      \<and> (\<forall>n < length r. srcCollapsed (srcAt (take n r) (srcChildren src ! k)) \<noteq> Some True
                          \<and> real (depth + 1 + n) < maxDepth (structureCfg config)))"
      by (simp only: Cons.IH)
    finally show ?thesis using True by (simp add: All_less_Suc2 ac_simps)
  next
    case False
    then have "children (buildLayoutTree textOracle config src depth) = []"
      by (auto simp: buildLayoutTree_children)
    then have "\<not> validPath (k # r) (buildLayoutTree textOracle config src depth)"
      by simp
    moreover from False have "\<not> (\<forall>n < length (k # r). srcCollapsed (srcAt (take n (k # r)) src) \<noteq> Some True
                          \<and> real (depth + n) < maxDepth (structureCfg config))"
      by (auto intro!: exI [where x = 0])
    ultimately show ?thesis by blast
  qed
qed

lemma buildLayoutTree_nodeAt:
  "validPath r (buildLayoutTree textOracle config src depth) \<Longrightarrow>
   nodeAt r (buildLayoutTree textOracle config src depth)
     = buildLayoutTree textOracle config (srcAt r src) (depth + length r)"
proof (induction r arbitrary: src depth)
  case Nil
  show ?case by simp
next
  case (Cons k r)
  from Cons.prems have ex: "srcCollapsed src \<noteq> Some True \<and> real depth < maxDepth (structureCfg config)"
    by (auto simp: buildLayoutTree_children split: if_splits)
  with Cons.prems have k: "k < length (srcChildren src)"
    and v: "validPath r (buildLayoutTree textOracle config (srcChildren src ! k) (depth + 1))"
    by (auto simp: buildLayoutTree_children)
  from Cons.IH [OF v] ex k show ?case by (simp add: buildLayoutTree_children)
qed

lemma collectPathsFrom_nonempty: "r \<in> set (collectPathsFrom k cs) \<Longrightarrow> r \<noteq> []"
  by (auto simp: collectPathsFrom_set)

lemma collectPaths_tl: "collectPaths c = [] # tl (collectPaths c)"
  by (cases c) simp

lemma tl_collectPaths_nonempty: "r \<in> set (tl (collectPaths c)) \<Longrightarrow> r \<noteq> []"
  by (cases c) (auto dest: collectPathsFrom_nonempty)

lemma edgeInto_child:
  "k < length cs \<Longrightarrow> r \<noteq> [] \<Longrightarrow> edgeInto (LayoutNode d cs) (k # r) = edgeInto (cs ! k) r"
  by (simp add: edgeInto_def)

lemma edgeInto_first:
  "k < length cs \<Longrightarrow> edgeInto (LayoutNode d cs) [k] =
     \<lparr> edgeId = nodeId d @ ''->'' @ nodeId (dataOf (cs ! k)), source = LayoutNode d cs,
       target = cs ! k, edgeDepth = nodeDepth (dataOf (cs ! k)) \<rparr>"
  by (simp add: edgeInto_def)

lemma collectEdges_from:
  assumes IH: "\<And>c. c \<in> set cs \<Longrightarrow> collectEdges c = map (edgeInto c) (tl (collectPaths c))"
  shows "k = length pre \<Longrightarrow>
     map (edgeInto (LayoutNode d (pre @ cs))) (collectPathsFrom k cs)
       = concat (map (\<lambda>child.
           \<lparr> edgeId = nodeId d @ ''->'' @ nodeId (dataOf child),
             source = LayoutNode d (pre @ cs), target = child,
             edgeDepth = nodeDepth (dataOf child) \<rparr> # collectEdges child) cs)"
  using IH
proof (induction cs arbitrary: k pre)
  case Nil
  show ?case by simp
next
  case (Cons c cs)
  have k: "k < length (pre @ c # cs)" and ck: "(pre @ c # cs) ! k = c"
    using Cons.prems(1) by simp_all
  have "map (edgeInto (LayoutNode d (pre @ c # cs))) (map ((#) k) (collectPaths c))
        = edgeInto (LayoutNode d (pre @ c # cs)) [k]
            # map (\<lambda>r. edgeInto (LayoutNode d (pre @ c # cs)) (k # r)) (tl (collectPaths c))"
    by (subst collectPaths_tl) (simp add: comp_def)
  also have "map (\<lambda>r. edgeInto (LayoutNode d (pre @ c # cs)) (k # r)) (tl (collectPaths c))
        = map (edgeInto c) (tl (collectPaths c))"
    using edgeInto_child [OF k] ck by (auto dest: tl_collectPaths_nonempty)
  also have "\<dots> = collectEdges c"
    using Cons.prems(2) by simp
  finally have first: "map (edgeInto (LayoutNode d (pre @ c # cs))) (map ((#) k) (collectPaths c))
        = \<lparr> edgeId = nodeId d @ ''->'' @ nodeId (dataOf c), source = LayoutNode d (pre @ c # cs),
             target = c, edgeDepth = nodeDepth (dataOf c) \<rparr> # collectEdges c"
    using edgeInto_first [OF k] ck by simp
  have rest: "map (edgeInto (LayoutNode d ((pre @ [c]) @ cs))) (collectPathsFrom (Suc k) cs)
       = concat (map (\<lambda>child.
           \<lparr> edgeId = nodeId d @ ''->'' @ nodeId (dataOf child),
             source = LayoutNode d ((pre @ [c]) @ cs), target = child,
             edgeDepth = nodeDepth (dataOf child) \<rparr> # collectEdges child) cs)"
    using Cons.prems by (intro Cons.IH) simp_all
  from first rest show ?case by simp
qed

lemma collectEdges_paths: "collectEdges t = map (edgeInto t) (tl (collectPaths t))"
proof (induction t)
  case (LayoutNode d cs)
  from collectEdges_from [where pre = "[]" and k = 0 and cs = cs and d = d] LayoutNode.IH
  show ?case by simp
qed


lemma collectNodes_from:
  assumes IH: "\<And>c. c \<in> set cs \<Longrightarrow> collectNodes c = map (\<lambda>r. nodeAt r c) (collectPaths c)"
  shows "k = length pre \<Longrightarrow>
     map (\<lambda>r. nodeAt r (LayoutNode d (pre @ cs))) (collectPathsFrom k cs) = concat (map collectNodes cs)"
  using IH
proof (induction cs arbitrary: k pre)
  case Nil
  show ?case by simp
next
  case (Cons c cs)
  have first: "map (\<lambda>r. nodeAt r (LayoutNode d (pre @ c # cs))) (map ((#) k) (collectPaths c)) = collectNodes c"
    using Cons.prems by (simp add: comp_def)
  have rest: "map (\<lambda>r. nodeAt r (LayoutNode d ((pre @ [c]) @ cs))) (collectPathsFrom (Suc k) cs)
       = concat (map collectNodes cs)"
    using Cons.prems by (intro Cons.IH) simp_all
  from first rest show ?case by simp
qed

lemma collectNodes_paths: "collectNodes t = map (\<lambda>r. nodeAt r t) (collectPaths t)"
proof (induction t)
  case (LayoutNode d cs)
  from collectNodes_from [where pre = "[]" and k = 0 and cs = cs and d = d] LayoutNode.IH
  show ?case by simp
qed

text \<open>
  C7. The layout tree has a node at a place exactly when the source tree has one there and
  every proper ancestor is expanded (not collapsed, depth below \<^verbatim>\<open>maxDepth\<close>); the
  layout node at a place is the one built from the source node at the same place. So for
  a source node with \<^verbatim>\<open>collapsed = true\<close>, or at a depth that has reached
  \<^verbatim>\<open>maxDepth\<close>, the corresponding layout node (if there is one) has no children,
  whatever children the source node has, and no place below it holds a layout node. The
  edge list is one edge into every layout node other than the root, in the order of the
  node list, so no edge is generated for any descendant of that source node.
\<close>

theorem collapsed_or_capped_has_no_children:
  assumes "validSrc p src"
    and "srcCollapsed (srcAt p src) = Some True
           \<or> maxDepth (structureCfg config) \<le> real (depth + length p)"
  shows "(\<forall>r. validPath r (buildLayoutTree textOracle config src depth) =
             (validSrc r src
              \<and> (\<forall>n < length r. srcCollapsed (srcAt (take n r) src) \<noteq> Some True
                                  \<and> real (depth + n) < maxDepth (structureCfg config))))
       \<and> (\<forall>r. validPath r (buildLayoutTree textOracle config src depth) \<longrightarrow>
             nodeAt r (buildLayoutTree textOracle config src depth)
               = buildLayoutTree textOracle config (srcAt r src) (depth + length r)
             \<and> nodeSrc (dataOf (nodeAt r (buildLayoutTree textOracle config src depth))) = srcAt r src)
       \<and> (validPath p (buildLayoutTree textOracle config src depth) \<longrightarrow>
             children (nodeAt p (buildLayoutTree textOracle config src depth)) = [])
       \<and> (\<forall>q. q \<noteq> [] \<longrightarrow> \<not> validPath (p @ q) (buildLayoutTree textOracle config src depth))
       \<and> collectNodes (buildLayoutTree textOracle config src depth)
           = map (\<lambda>r. nodeAt r (buildLayoutTree textOracle config src depth))
               (collectPaths (buildLayoutTree textOracle config src depth))
       \<and> collectEdges (buildLayoutTree textOracle config src depth)
           = map (edgeInto (buildLayoutTree textOracle config src depth))
               (tl (collectPaths (buildLayoutTree textOracle config src depth)))
       \<and> (\<forall>q. q \<noteq> [] \<longrightarrow> p @ q \<notin> set (collectPaths (buildLayoutTree textOracle config src depth)))"
proof -
  define t where "t = buildLayoutTree textOracle config src depth"
  have shape: "\<forall>r. validPath r t =
             (validSrc r src
              \<and> (\<forall>n < length r. srcCollapsed (srcAt (take n r) src) \<noteq> Some True
                                  \<and> real (depth + n) < maxDepth (structureCfg config)))"
    unfolding t_def by (simp only: buildLayoutTree_validPath) simp
  have at: "\<forall>r. validPath r t \<longrightarrow>
             nodeAt r t = buildLayoutTree textOracle config (srcAt r src) (depth + length r)
             \<and> nodeSrc (dataOf (nodeAt r t)) = srcAt r src"
    unfolding t_def by (simp add: buildLayoutTree_nodeAt buildLayoutTree_data)
  have nil: "validPath p t \<longrightarrow> children (nodeAt p t) = []"
  proof
    assume "validPath p t"
    with at have "nodeAt p t = buildLayoutTree textOracle config (srcAt p src) (depth + length p)"
      by simp
    with assms(2) show "children (nodeAt p t) = []"
      by (auto simp: buildLayoutTree_children)
  qed
  have below: "\<forall>q. q \<noteq> [] \<longrightarrow> \<not> validPath (p @ q) t"
  proof (intro allI impI notI)
    fix q :: path assume q: "q \<noteq> []" and v: "validPath (p @ q) t"
    from q have "length p < length (p @ q)" by simp
    with v shape have "srcCollapsed (srcAt (take (length p) (p @ q)) src) \<noteq> Some True
                                  \<and> real (depth + length p) < maxDepth (structureCfg config)"
      by blast
    with assms(2) show False by simp
  qed
  have nodes: "collectNodes t = map (\<lambda>r. nodeAt r t) (collectPaths t)"
    by (rule collectNodes_paths)
  have edges: "collectEdges t = map (edgeInto t) (tl (collectPaths t))"
    by (rule collectEdges_paths)
  have none: "\<forall>q. q \<noteq> [] \<longrightarrow> p @ q \<notin> set (collectPaths t)"
    using below collectPaths_valid by blast
  from shape at nil below nodes edges none show ?thesis
    unfolding t_def by blast
qed


theorem collapsed_or_capped_witness:
  "validSrc [0] collapsedSample
   \<and> srcId (srcAt [0] collapsedSample) = ''a''
   \<and> srcCollapsed (srcAt [0] collapsedSample) = Some True
   \<and> srcChildren (srcAt [0] collapsedSample) = [leaf ''b'', leaf ''c'']
   \<and> validPath [0] (buildLayoutTree fixedMeasure defaultConfig collapsedSample 0)
   \<and> nodeSrc (dataOf (nodeAt [0] (buildLayoutTree fixedMeasure defaultConfig collapsedSample 0)))
        = srcAt [0] collapsedSample
   \<and> children (nodeAt [0] (buildLayoutTree fixedMeasure defaultConfig collapsedSample 0)) = []
   \<and> \<not> validPath [0, 0] (buildLayoutTree fixedMeasure defaultConfig collapsedSample 0)
   \<and> \<not> validPath [0, 1] (buildLayoutTree fixedMeasure defaultConfig collapsedSample 0)
   \<and> collectPaths (buildLayoutTree fixedMeasure defaultConfig collapsedSample 0) = [[], [0], [1]]
   \<and> collectEdges (buildLayoutTree fixedMeasure defaultConfig collapsedSample 0)
        = map (edgeInto (buildLayoutTree fixedMeasure defaultConfig collapsedSample 0)) [[0], [1]]
   \<and> map edgeId (collectEdges (buildLayoutTree fixedMeasure defaultConfig collapsedSample 0))
        = [''root->a'', ''root->d'']"
proof -
  have v: "validSrc [0] collapsedSample"
    by (simp add: collapsedSample_def)
  have a: "srcAt [0] collapsedSample = collapsedBranch"
    by (simp add: collapsedSample_def)
  have col: "srcCollapsed (srcAt [0] collapsedSample) = Some True
      \<or> maxDepth (structureCfg defaultConfig) \<le> real (0 + length [0::nat])"
    unfolding a by (simp add: collapsedBranch_def)
  have paths: "collectPaths (buildLayoutTree fixedMeasure defaultConfig collapsedSample 0) = [[], [0], [1]]"
    by (simp add: collapsedSample_def collapsedBranch_def leaf_def defaultConfig_def)
  have vp: "validPath [0] (buildLayoutTree fixedMeasure defaultConfig collapsedSample 0)"
    by (simp add: collapsedSample_def collapsedBranch_def leaf_def defaultConfig_def)
  note main = collapsed_or_capped_has_no_children [OF v col, where textOracle = fixedMeasure]
  note at = main [THEN conjunct2, THEN conjunct1, THEN spec, where x = "[0]"]
  note nl = main [THEN conjunct2, THEN conjunct2, THEN conjunct1]
  note bl = main [THEN conjunct2, THEN conjunct2, THEN conjunct2, THEN conjunct1]
  note ed = main [THEN conjunct2, THEN conjunct2, THEN conjunct2, THEN conjunct2, THEN conjunct2, THEN conjunct1]
  from at [THEN mp, OF vp]
  have src: "nodeSrc (dataOf (nodeAt [0] (buildLayoutTree fixedMeasure defaultConfig collapsedSample 0)))
        = srcAt [0] collapsedSample"
    by (rule conjunct2)
  from nl [THEN mp, OF vp]
  have nil: "children (nodeAt [0] (buildLayoutTree fixedMeasure defaultConfig collapsedSample 0)) = []" .
  from bl [THEN spec, where x = "[0]"]
  have b0: "\<not> validPath [0, 0] (buildLayoutTree fixedMeasure defaultConfig collapsedSample 0)"
    by (simp only: append.simps list.simps simp_thms)
  from bl [THEN spec, where x = "[1]"]
  have b1: "\<not> validPath [0, 1] (buildLayoutTree fixedMeasure defaultConfig collapsedSample 0)"
    by (simp only: append.simps list.simps simp_thms)
  from ed have edges: "collectEdges (buildLayoutTree fixedMeasure defaultConfig collapsedSample 0)
        = map (edgeInto (buildLayoutTree fixedMeasure defaultConfig collapsedSample 0)) [[0], [1]]"
    by (simp only: paths list.sel)
  have ids: "map edgeId (collectEdges (buildLayoutTree fixedMeasure defaultConfig collapsedSample 0))
        = [''root->a'', ''root->d'']"
    by (simp add: collapsedSample_def collapsedBranch_def leaf_def defaultConfig_def)
  have more: "srcId (srcAt [0] collapsedSample) = ''a''"
    "srcCollapsed (srcAt [0] collapsedSample) = Some True"
    "srcChildren (srcAt [0] collapsedSample) = [leaf ''b'', leaf ''c'']"
    unfolding a by (simp_all add: collapsedBranch_def)
  from v more vp src nil b0 b1 paths edges ids show ?thesis by (intro conjI)
qed

end
